theory Spec2Isabelle
  imports Main "HOL-Library.AList"
begin

section \<open>JavaScript strings\<close>

text \<open>
  The string methods the bot relies on. \<open>s.startsWith(p)\<close>, \<open>s.includes(p)\<close> and
  \<open>s.endsWith(p)\<close> are plain recursions over the characters. A value that JavaScript
  tests for truthiness and that is a possibly missing string is an \<open>option\<close>;
  \<open>undefined\<close> and the empty string are both falsy.
\<close>

fun startsWith :: "string \<Rightarrow> string \<Rightarrow> bool" where
  "startsWith s [] = True"
| "startsWith [] (p # ps) = False"
| "startsWith (c # cs) (p # ps) = (c = p \<and> startsWith cs ps)"

fun str_includes :: "string \<Rightarrow> string \<Rightarrow> bool" where
  "str_includes [] p = (p = [])"
| "str_includes (c # cs) p = (startsWith (c # cs) p \<or> str_includes cs p)"

definition endsWith :: "string \<Rightarrow> string \<Rightarrow> bool" where
  "endsWith s p = startsWith (rev s) (rev p)"

definition truthy :: "string option \<Rightarrow> bool" where
  "truthy v = (case v of None \<Rightarrow> False | Some s \<Rightarrow> s \<noteq> [])"

text \<open>\<open>a || b\<close> on possibly missing strings, with a string default.\<close>

definition orElse :: "string option \<Rightarrow> string \<Rightarrow> string" where
  "orElse v d = (if truthy v then the v else d)"

text \<open>
  \<open>s.split(sep)\<close> is only ever indexed at 0 and 1: \<open>takeUntil sep s\<close> is element 0 (the
  text before the first separator, or all of \<open>s\<close>), \<open>split1 sep s\<close> is element 1 (the text
  between the first and the second separator), \<open>undefined\<close> when \<open>s\<close> has no separator.
\<close>

fun takeUntil :: "string \<Rightarrow> string \<Rightarrow> string" where
  "takeUntil sep [] = []"
| "takeUntil sep (c # cs) = (if startsWith (c # cs) sep then [] else c # takeUntil sep cs)"

fun dropUntil :: "string \<Rightarrow> string \<Rightarrow> string option" where
  "dropUntil sep [] = None"
| "dropUntil sep (c # cs) =
     (if startsWith (c # cs) sep then Some (drop (length sep) (c # cs)) else dropUntil sep cs)"

definition split1 :: "string \<Rightarrow> string \<Rightarrow> string option" where
  "split1 sep s = map_option (takeUntil sep) (dropUntil sep s)"

section \<open>Messages\<close>

text \<open>
  The parts of the protocol engine's message objects that the bot reads. An object that
  may be missing is an \<open>option\<close>; a media object is represented by the one field the bot
  reads from it (caption or file name), itself optional.
\<close>

record MessageKey =
  remoteJid :: "string option"
  fromMe :: bool
  keyId :: "string option"
  participant :: "string option"

record ProtocolMessage =
  ptype :: "nat option"
  pkey :: "MessageKey option"

record Message =
  conversation :: "string option"
  extendedTextMessage :: "string option option"
  imageMessage :: "string option option"
  videoMessage :: "string option option"
  audioMessage :: bool
  documentMessage :: "string option option"
  stickerMessage :: bool
  protocolMessage :: "ProtocolMessage option"
  ephemeralMessage :: bool
  reactionMessage :: bool

record WAMessage =
  key :: MessageKey
  message :: "Message option"
  pushName :: "string option"

text \<open>A retained message is the inbound message spread into a new object with a \<open>timestamp\<close>.\<close>

record StoredMessage = WAMessage +
  timestamp :: nat

definition stored :: "WAMessage \<Rightarrow> nat \<Rightarrow> StoredMessage" where
  "stored mek now = \<lparr>key = key mek, message = message mek, pushName = pushName mek, timestamp = now\<rparr>"

section \<open>The retention cache\<close>

text \<open>
  \<open>messageStore\<close> is a JavaScript \<open>Map\<close>: keys are unique and iteration follows insertion
  order, and \<open>set\<close> on a present key replaces the value in place. That is an association
  list under \<open>AList.update\<close>, \<open>map_of\<close> and \<open>AList.delete\<close>.
\<close>

type_synonym store = "(string \<times> StoredMessage) list"

text \<open>
  \<open>Array.from(messageStore.entries()).sort((a, b) => a[1].timestamp - b[1].timestamp)[0][0]\<close>:
  the sort is stable, as \<open>sort_key\<close> is, so among equal timestamps the entry that comes
  first in the map wins. Only called on a map of more than 1000 entries.
\<close>

definition oldestKey :: "store \<Rightarrow> string" where
  "oldestKey st = fst (hd (sort_key (\<lambda>e. timestamp (snd e)) st))"

text \<open>The put of the \<open>messages.upsert\<close> handler: set, then evict once when over 1000 entries.\<close>

definition retain :: "string \<Rightarrow> WAMessage \<Rightarrow> nat \<Rightarrow> store \<Rightarrow> store" where
  "retain k mek now st =
     (let st1 = AList.update k (stored mek now) st
      in if length st1 > 1000 then AList.delete (oldestKey st1) st1 else st1)"

text \<open>A sequence of puts, each with the message id, the message and the clock reading.\<close>

fun run_puts :: "(string \<times> WAMessage \<times> nat) list \<Rightarrow> store \<Rightarrow> store" where
  "run_puts [] st = st"
| "run_puts ((k, mek, now) # ps) st = run_puts ps (retain k mek now st)"

text \<open>The clock reading of the last put of an id in a sequence of puts.\<close>

definition last_put :: "(string \<times> WAMessage \<times> nat) list \<Rightarrow> string \<Rightarrow> nat option" where
  "last_put ps k = map_of (rev (map (\<lambda>p. (fst p, snd (snd p))) ps)) k"


section \<open>Configuration, environment and the engine's command surface\<close>

text \<open>The module-level constants read from \<open>config\<close>.\<close>

record Group =
  name :: string
  inviteLink :: string
  inviteCode :: string

record Config =
  ANTI_DELETE_ENABLED :: bool
  AUTO_VIEW_STATUS :: bool
  AUTO_LIKE_STATUS :: bool
  BOT_OWNER :: string
  SEND_CONNECT_MESSAGE :: bool
  SESSION_ID :: "string option"
  AUTO_STATUS_SEEN :: bool
  AUTO_STATUS_REPLY :: bool
  STATUS_READ_MSG :: "string option"
  AUTO_JOIN_GROUP_LINKS :: "string list"
  PREFIX :: string

text \<open>
  Everything the code takes from outside the module, as parameters: the clock
  (\<open>Date.now()\<close>), \<open>moment(...).format(...)\<close>, \<open>Math.random()\<close> scaled to an index, the
  decoders of Node (\<open>Buffer.from(s, 'base64')\<close>, \<open>zlib.gunzip\<close>, \<open>toString('utf-8')\<close>; a
  buffer is a list of bytes, as a \<open>string\<close> is), whether \<open>fs.promises.writeFile\<close> succeeds,
  the remote archive download (\<open>None\<close> when it fails), and whether the engine's set-up calls
  in \<open>start\<close> succeed.
\<close>

record Env =
  now :: nat
  format_time :: "nat \<Rightarrow> string"
  random_index :: nat
  base64_decode :: "string \<Rightarrow> string"
  gunzip :: "string \<Rightarrow> string option"
  utf8_toString :: "string \<Rightarrow> string"
  writeFile_ok :: bool
  mega_download :: "string \<Rightarrow> string \<Rightarrow> string option"
  engine_ok :: bool

text \<open>
  The commands of the socket object \<open>Matrix\<close>. A call either succeeds, returns a promise
  that rejects, or throws before returning a promise. The value thrown is \<open>undefined\<close>,
  \<open>null\<close>, or an object, represented by its \<open>message\<close> property (a string when it has one).
  What a call does is the engine's business, so its outcome is a parameter, which may
  depend on the number of calls made so far.
\<close>

datatype Content =
    Text string
  | Relay Message
  | Reaction string MessageKey
  | QuotedText string WAMessage
  | Image string string

datatype Call =
    SendMessage string Content
  | ReadMessages "MessageKey list"
  | GroupAcceptInvite string

datatype Thrown = ThrownUndefined | ThrownNull | ThrownError "string option"

datatype Outcome = Ok | Rejects Thrown | Throws Thrown

text \<open>
  A \<open>catch\<close> block that evaluates \<open>error.message\<close> raises a TypeError of its own when the
  value caught is \<open>undefined\<close> or \<open>null\<close>; \<open>reading_message\<close> is the message of that TypeError.
\<close>

definition TypeError_message :: "string \<Rightarrow> string" where
  "TypeError_message what =
     ''Cannot read properties of '' @ what @ '' (reading '' @ [CHR 0x27] @ ''message'' @ [CHR 0x27] @ '')''"

definition reading_message :: "Thrown \<Rightarrow> string option" where
  "reading_message v =
     (case v of
        ThrownUndefined \<Rightarrow> Some (TypeError_message ''undefined'')
      | ThrownNull \<Rightarrow> Some (TypeError_message ''null'')
      | ThrownError m \<Rightarrow> None)"

definition failure :: "Outcome \<Rightarrow> Thrown option" where
  "failure answer = (case answer of Ok \<Rightarrow> None | Rejects v \<Rightarrow> Some v | Throws v \<Rightarrow> Some v)"

record Matrix =
  respond :: "nat \<Rightarrow> Call \<Rightarrow> Outcome"
  user_id :: "string option"

text \<open>Console output is modelled for these lines only.\<close>

datatype Log = AutoJoinProcessing | Reconnecting | LoggedOut | CriticalError

text \<open>The state the feature handlers share: the cache, the commands issued, the console.\<close>

record World =
  messageStore :: store
  calls :: "Call list"
  console :: "Log list"

definition perform :: "Matrix \<Rightarrow> Call \<Rightarrow> World \<Rightarrow> Outcome \<times> World" where
  "perform M c w = (respond M (length (calls w)) c, w\<lparr>calls := calls w @ [c]\<rparr>)"

definition owner_configured :: "Config \<Rightarrow> bool" where
  "owner_configured cfg = (BOT_OWNER cfg \<noteq> [] \<and> str_includes (BOT_OWNER cfg) ''@'')"

definition nl :: string where
  "nl = [CHR 0x0A]"

fun digits :: "nat \<Rightarrow> string" where
  "digits n = (if n < 10 then [''0123456789'' ! n] else digits (n div 10) @ [''0123456789'' ! (n mod 10)])"

declare digits.simps [simp del]


section \<open>Delete recovery\<close>

text \<open>
  \<open>handleAntiDelete\<close>, with its texts in ASCII (the emoji that decorate them are left out).
  The body between the guards and the final \<open>messageStore.delete\<close> is \<open>recover\<close>.
\<close>

definition flat :: "'a option option \<Rightarrow> 'a option" where
  "flat v = (case v of None \<Rightarrow> None | Some x \<Rightarrow> x)"

definition chatTypeOf :: "string \<Rightarrow> string" where
  "chatTypeOf targetJid =
     (if endsWith targetJid ''@g.us'' then ''Group''
      else if endsWith targetJid ''@s.whatsapp.net'' then ''Private''
      else if endsWith targetJid ''@broadcast'' then ''Broadcast''
      else ''Unknown'')"

text \<open>The pair \<open>(messageContent, messageType)\<close>.\<close>

definition extractContent :: "Message option \<Rightarrow> string \<times> string" where
  "extractContent mo =
     (case mo of None \<Rightarrow> (''Unknown content'', ''Text'')
      | Some m \<Rightarrow>
          if truthy (conversation m) then (orElse (conversation m) [], ''Text'')
          else if truthy (flat (extendedTextMessage m))
            then (orElse (flat (extendedTextMessage m)) [], ''Extended Text'')
          else if imageMessage m \<noteq> None
            then (orElse (flat (imageMessage m)) ''[Image Message]'', ''Image'')
          else if videoMessage m \<noteq> None
            then (orElse (flat (videoMessage m)) ''[Video Message]'', ''Video'')
          else if audioMessage m then (''[Audio Message]'', ''Audio'')
          else if documentMessage m \<noteq> None
            then (''[Document] '' @ orElse (flat (documentMessage m)) ''File'', ''Document'')
          else if stickerMessage m then (''[Sticker]'', ''Sticker'')
          else (''Unknown content'', ''Text''))"

definition reportMessage ::
  "string \<Rightarrow> string \<Rightarrow> string \<Rightarrow> string \<Rightarrow> string \<Rightarrow> string \<Rightarrow> string \<Rightarrow> bool \<Rightarrow> string \<Rightarrow> string"
where
  "reportMessage ts deleteTimestamp senderName senderJid targetJid chatType messageType byMe
      messageContent =
     ''*ANTI-DELETE: DELETED MESSAGE RECOVERED*'' @ nl @ nl @
     ''*Original Time:* '' @ ts @ nl @
     ''*Deleted At:* '' @ deleteTimestamp @ nl @
     ''*Sender:* '' @ senderName @ nl @
     ''*Sender JID:* '' @ senderJid @ nl @
     ''*Chat JID/LID:* '' @ targetJid @ nl @
     ''*Chat Type:* '' @ chatType @ nl @
     ''*Message Type:* '' @ messageType @ nl @
     ''*Deleted by:* '' @ (if byMe then ''You (Bot)'' else ''Other User'') @ nl @ nl @
     ''*Original Message:*'' @ nl @ messageContent @ nl @ nl @
     ''*Message has been automatically recovered and resent to the chat.*''"

definition recoveryInfo :: "string \<Rightarrow> string \<Rightarrow> string" where
  "recoveryInfo senderName ts =
     ''*Message Recovery*'' @ nl @
     ''This message was deleted and automatically recovered by the anti-delete system.'' @ nl @
     ''Original sender: '' @ senderName @ nl @
     ''Original time: '' @ ts"

definition fallbackMessage :: "string \<Rightarrow> string \<Rightarrow> string \<Rightarrow> string \<Rightarrow> string" where
  "fallbackMessage senderName ts messageType messageContent =
     ''*Recovered Deleted Message*'' @ nl @ nl @
     ''From: '' @ senderName @ nl @
     ''Time: '' @ ts @ nl @
     ''Type: '' @ messageType @ nl @ nl @
     ''Content: '' @ messageContent"

text \<open>The recovery notice written into the caption or file name of a media message.\<close>

definition mark :: "Message \<Rightarrow> Message" where
  "mark m =
     (case imageMessage m of
        Some caption \<Rightarrow>
          m\<lparr>imageMessage := Some (Some (''[Recovered Deleted Message]'' @ nl @ orElse caption []))\<rparr>
      | None \<Rightarrow>
          (case videoMessage m of
             Some caption \<Rightarrow>
               m\<lparr>videoMessage := Some (Some (''[Recovered Deleted Message]'' @ nl @ orElse caption []))\<rparr>
           | None \<Rightarrow>
               (case documentMessage m of
                  Some fileName \<Rightarrow>
                    m\<lparr>documentMessage := Some (Some (''[Recovered] '' @ orElse fileName ''file''))\<rparr>
                | None \<Rightarrow> m)))"

text \<open>\<open>messageStore.delete(deletedMsgKey.id)\<close>, the last statement of the recovery.\<close>

definition forget :: "string \<Rightarrow> World \<Rightarrow> World" where
  "forget k w = w\<lparr>messageStore := AList.delete k (messageStore w)\<rparr>"

text \<open>
  The \<open>catch (resendError)\<close> block: one plain-text send. When it fails too, the outer
  \<open>catch\<close> ends the handler before the entry is removed.
\<close>

definition fallback :: "Matrix \<Rightarrow> string \<Rightarrow> string \<Rightarrow> string \<Rightarrow> World \<Rightarrow> World" where
  "fallback M targetJid txt k w =
     (case perform M (SendMessage targetJid (Text txt)) w of
        (Ok, w') \<Rightarrow> forget k w'
      | (_, w') \<Rightarrow> w')"

text \<open>
  The inner \<open>try\<close>: resend the retained content, then the supplementary notice for a text
  message, then remove the entry. The copy \<open>{ ...storedMessage.message }\<close> is shallow, so
  the caption written into it is written into the retained message as well.
\<close>

definition resend ::
  "Matrix \<Rightarrow> string \<Rightarrow> string \<Rightarrow> string \<Rightarrow> string \<Rightarrow> string \<Rightarrow> StoredMessage \<Rightarrow> World \<Rightarrow> World"
where
  "resend M targetJid messageType info fb k storedMessage w1 =
     (case message storedMessage of
        None \<Rightarrow> forget k w1
      | Some m \<Rightarrow>
          (let resendMessage = mark m;
               w2 = w1\<lparr>messageStore :=
                      AList.update k (storedMessage\<lparr>message := Some resendMessage\<rparr>)
                        (messageStore w1)\<rparr>
           in case perform M (SendMessage targetJid (Relay resendMessage)) w2 of
                (Ok, w3) \<Rightarrow>
                  if messageType = ''Text'' \<or> messageType = ''Extended Text''
                  then (case perform M (SendMessage targetJid (Text info)) w3 of
                          (Ok, w4) \<Rightarrow> forget k w4
                        | (_, w4) \<Rightarrow> fallback M targetJid fb k w4)
                  else forget k w3
              | (_, w3) \<Rightarrow> fallback M targetJid fb k w3))"

text \<open>
  The body of \<open>handleAntiDelete\<close> for a retained message. The report send is awaited directly
  inside the outer \<open>try\<close>: when it fails, control goes to the outer \<open>catch\<close>.
\<close>

definition recover ::
  "Config \<Rightarrow> Env \<Rightarrow> Matrix \<Rightarrow> MessageKey \<Rightarrow> string \<Rightarrow> StoredMessage \<Rightarrow> World \<Rightarrow> World"
where
  "recover cfg env M deletedMsgKey k storedMessage w =
     (let senderJid = orElse (participant (key storedMessage))
                        (orElse (remoteJid (key storedMessage)) ''Unknown'');
          chatJid = orElse (remoteJid (key storedMessage)) ''Unknown'';
          senderName = orElse (pushName storedMessage) ''Unknown'';
          ts = format_time env (timestamp storedMessage);
          deleteTimestamp = format_time env (now env);
          targetJid = orElse (remoteJid deletedMsgKey) chatJid;
          chatType = chatTypeOf targetJid;
          messageContent = fst (extractContent (message storedMessage));
          messageType = snd (extractContent (message storedMessage));
          report = reportMessage ts deleteTimestamp senderName senderJid targetJid chatType
                     messageType (fromMe deletedMsgKey) messageContent;
          reported = (if owner_configured cfg
                      then perform M (SendMessage (BOT_OWNER cfg) (Text report)) w
                      else (Ok, w))
      in if fst reported \<noteq> Ok then snd reported
         else resend M targetJid messageType (recoveryInfo senderName ts)
                (fallbackMessage senderName ts messageType messageContent) k storedMessage
                (snd reported))"

text \<open>
  A deletion notice whose \<open>key\<close> is missing makes \<open>deletedMsgKey.id\<close> throw a TypeError,
  which the outer \<open>catch\<close> logs; \<open>messageStore.get(undefined)\<close> finds nothing.
\<close>

definition handleAntiDelete :: "Config \<Rightarrow> Env \<Rightarrow> Matrix \<Rightarrow> WAMessage \<Rightarrow> World \<Rightarrow> World" where
  "handleAntiDelete cfg env M mek w =
     (if \<not> ANTI_DELETE_ENABLED cfg then w
      else case message mek of
        None \<Rightarrow> w
      | Some msg \<Rightarrow>
          (case protocolMessage msg of
             None \<Rightarrow> w
           | Some pm \<Rightarrow>
               if ptype pm \<noteq> Some 0 then w
               else (case pkey pm of
                  None \<Rightarrow> w
                | Some deletedMsgKey \<Rightarrow>
                    (case keyId deletedMsgKey of
                       None \<Rightarrow> w
                     | Some k \<Rightarrow>
                         (case map_of (messageStore w) k of
                            None \<Rightarrow> w
                          | Some storedMessage \<Rightarrow>
                              recover cfg env M deletedMsgKey k storedMessage w)))))"

section \<open>Status engagement\<close>

text \<open>\<open>LIKE_EMOJIS\<close>, each emoji written as its name.\<close>

definition LIKE_EMOJIS :: "string list" where
  "LIKE_EMOJIS = ['':thumbsup:'', '':heart:'', '':fire:'', '':clap:'', '':tada:'',
     '':star-struck:'', '':heart-eyes:'', '':zap:'', '':100:'', '':sparkles:'']"

definition handleAutoViewStatus :: "Config \<Rightarrow> Matrix \<Rightarrow> WAMessage \<Rightarrow> World \<Rightarrow> World" where
  "handleAutoViewStatus cfg M mek w =
     (if \<not> AUTO_VIEW_STATUS cfg then w
      else if remoteJid (key mek) = Some ''status@broadcast''
        then snd (perform M (ReadMessages [key mek]) w)
      else w)"

definition handleAutoLikeStatus :: "Config \<Rightarrow> Env \<Rightarrow> Matrix \<Rightarrow> WAMessage \<Rightarrow> World \<Rightarrow> World" where
  "handleAutoLikeStatus cfg env M mek w =
     (if \<not> AUTO_LIKE_STATUS cfg then w
      else if remoteJid (key mek) = Some ''status@broadcast''
        then (let randomEmoji = LIKE_EMOJIS ! (random_index env mod length LIKE_EMOJIS)
              in snd (perform M (SendMessage ''status@broadcast''
                                   (Reaction randomEmoji (key mek))) w))
      else w)"

section \<open>The \<open>messages.upsert\<close> handlers\<close>

text \<open>
  The first handler retains \<open>chatUpdate.messages[0]\<close> and then passes the batch to the
  command router \<open>Handler\<close>, which is outside this module and cannot reach \<open>messageStore\<close>.
  An empty batch makes \<open>mek\<close> undefined, and \<open>mek?.key?.id\<close> falsy.
\<close>

definition upsert_retain :: "Config \<Rightarrow> Env \<Rightarrow> WAMessage list \<Rightarrow> World \<Rightarrow> World" where
  "upsert_retain cfg env batch w =
     (case batch of
        [] \<Rightarrow> w
      | mek # rest \<Rightarrow>
          if truthy (keyId (key mek)) \<and> message mek \<noteq> None \<and> \<not> fromMe (key mek)
             \<and> ANTI_DELETE_ENABLED cfg
          then w\<lparr>messageStore :=
                   retain (orElse (keyId (key mek)) []) mek (now env) (messageStore w)\<rparr>
          else w)"

text \<open>
  The third handler. On an empty batch \<open>mek.key\<close> throws a TypeError, caught by the
  handler's own \<open>try\<close>; so is a failure of the two calls of the status branch.
\<close>

definition upsert_features :: "Config \<Rightarrow> Env \<Rightarrow> Matrix \<Rightarrow> WAMessage list \<Rightarrow> World \<Rightarrow> World" where
  "upsert_features cfg env M batch w =
     (case batch of
        [] \<Rightarrow> w
      | mek # rest \<Rightarrow>
          (case message mek of
             None \<Rightarrow> w
           | Some msg \<Rightarrow>
               if fromMe (key mek) then w
               else if protocolMessage msg \<noteq> None \<or> ephemeralMessage msg \<or> reactionMessage msg
                 then w
               else
                 (let fromJid = orElse (participant (key mek)) (orElse (remoteJid (key mek)) []);
                      w1 = handleAntiDelete cfg env M mek w;
                      w2 = handleAutoViewStatus cfg M mek w1;
                      w3 = handleAutoLikeStatus cfg env M mek w2
                  in if remoteJid (key mek) = Some ''status@broadcast'' \<and> AUTO_STATUS_SEEN cfg
                     then (case perform M (ReadMessages [key mek]) w3 of
                             (Ok, w4) \<Rightarrow>
                               if AUTO_STATUS_REPLY cfg
                               then snd (perform M (SendMessage fromJid
                                      (QuotedText (orElse (STATUS_READ_MSG cfg)
                                         ''Auto Status Seen Bot By JAWAD-MD'') mek)) w4)
                               else w4
                           | (_, w4) \<Rightarrow> w4)
                     else w3)))"

text \<open>Both handlers on one event, in registration order.\<close>

definition messages_upsert :: "Config \<Rightarrow> Env \<Rightarrow> Matrix \<Rightarrow> WAMessage list \<Rightarrow> World \<Rightarrow> World" where
  "messages_upsert cfg env M batch w =
     upsert_features cfg env M batch (upsert_retain cfg env batch w)"


section \<open>Membership reconciler\<close>

text \<open>
  \<open>MANDATORY_GROUPS\<close>: the three built-in groups, then one group for each configured link
  that contains the invite URL (\<open>AUTO_JOIN_GROUP_LINKS\<close> taken in its array form).
\<close>

definition invite_url :: string where
  "invite_url = ''chat.whatsapp.com/''"

fun config_groups :: "nat \<Rightarrow> string list \<Rightarrow> Group list" where
  "config_groups index [] = []"
| "config_groups index (link # links) =
     (if str_includes link invite_url
      then [\<lparr>name = ''Config Group '' @ digits (index + 1), inviteLink = link,
              inviteCode = (case split1 invite_url link of Some code \<Rightarrow> code | None \<Rightarrow> [])\<rparr>]
      else []) @ config_groups (Suc index) links"

definition MANDATORY_GROUPS :: "Config \<Rightarrow> Group list" where
  "MANDATORY_GROUPS cfg =
     [\<lparr>name = ''Group 1'', inviteLink = ''https://chat.whatsapp.com/DdhFa7LbzeTKRG9hSHkzoW'',
        inviteCode = ''DdhFa7LbzeTKRG9hSHkzoW''\<rparr>,
      \<lparr>name = ''Group 2'', inviteLink = ''https://chat.whatsapp.com/Dn0uPVabXugIro9BgmGilM'',
        inviteCode = ''Dn0uPVabXugIro9BgmGilM''\<rparr>,
      \<lparr>name = ''Group 3'', inviteLink = ''https://chat.whatsapp.com/F4wbivBj6Qg1ZPDAi9GAag'',
        inviteCode = ''F4wbivBj6Qg1ZPDAi9GAag''\<rparr>]
     @ config_groups 0 (AUTO_JOIN_GROUP_LINKS cfg)"

text \<open>
  What \<open>joinGroupByInviteCode\<close> returns and what the loop pushes to \<open>results\<close>; a field
  the source leaves out is \<open>False\<close> or \<open>None\<close>.
\<close>

record JoinResult =
  success :: bool
  alreadyInGroup :: bool
  error :: "string option"
  groupName :: string

text \<open>The message of the TypeError raised by \<open>error.message.includes\<close> on a missing message.\<close>

definition TypeError_includes :: string where
  "TypeError_includes =
     ''Cannot read properties of undefined (reading '' @ [CHR 0x27] @ ''includes'' @ [CHR 0x27] @ '')''"

text \<open>The variable \<open>code\<close>: the invite code, cut out of a full invite URL.\<close>

definition invite_code_of :: "string \<Rightarrow> string" where
  "invite_code_of invite =
     (if str_includes invite invite_url
      then (case split1 invite_url invite of Some c \<Rightarrow> c | None \<Rightarrow> invite)
      else invite)"

text \<open>
  The \<open>catch\<close> block of \<open>joinGroupByInviteCode\<close>. Its first statement logs \<open>error.message\<close>,
  which raises a TypeError when the value caught is \<open>undefined\<close> or \<open>null\<close>; then it
  classifies the failure by its message, and on an error without a message
  \<open>error.message.includes\<close> raises a TypeError. Either TypeError leaves the function as an
  exception: \<open>Inl\<close> carries its message.
\<close>

definition classify :: "string \<Rightarrow> Thrown \<Rightarrow> string + JoinResult" where
  "classify gname e =
     (case e of
        ThrownUndefined \<Rightarrow> Inl (TypeError_message ''undefined'')
      | ThrownNull \<Rightarrow> Inl (TypeError_message ''null'')
      | ThrownError None \<Rightarrow> Inl TypeError_includes
      | ThrownError (Some msg) \<Rightarrow>
          if str_includes msg ''already''
          then Inr \<lparr>success = True, alreadyInGroup = True, error = None, groupName = gname\<rparr>
          else if str_includes msg ''invite'' \<or> str_includes msg ''invalid''
          then Inr \<lparr>success = False, alreadyInGroup = False,
                    error = Some ''Invalid or expired invite link'', groupName = gname\<rparr>
          else if str_includes msg ''rate'' \<or> str_includes msg ''limit''
          then Inr \<lparr>success = False, alreadyInGroup = False,
                    error = Some ''Rate limit'', groupName = gname\<rparr>
          else Inr \<lparr>success = False, alreadyInGroup = False,
                    error = Some msg, groupName = gname\<rparr>)"

text \<open>What \<open>joinGroupByInviteCode\<close> makes of the engine's answer to \<open>groupAcceptInvite\<close>.\<close>

definition join_result :: "string \<Rightarrow> Outcome \<Rightarrow> string + JoinResult" where
  "join_result gname answer =
     (case answer of
        Ok \<Rightarrow> Inr \<lparr>success = True, alreadyInGroup = False, error = None, groupName = gname\<rparr>
      | Rejects e \<Rightarrow> classify gname e
      | Throws e \<Rightarrow> classify gname e)"

definition joinGroupByInviteCode ::
  "Matrix \<Rightarrow> string \<Rightarrow> string \<Rightarrow> World \<Rightarrow> (string + JoinResult) \<times> World"
where
  "joinGroupByInviteCode M invite gname w =
     (let called = perform M (GroupAcceptInvite (invite_code_of invite)) w
      in (join_result gname (fst called), snd called))"

text \<open>
  The returned summary; during the loop its fields are the counters \<open>joinedCount\<close>,
  \<open>alreadyInCount\<close>, \<open>failedCount\<close> and the array \<open>results\<close>.
\<close>

record Summary =
  total :: nat
  joined :: nat
  alreadyIn :: nat
  failed :: nat
  results :: "JoinResult list"

text \<open>
  One pass of the loop body after the join: the counting in the per-group \<open>try\<close> for a
  returned result, the per-group \<open>catch\<close> for an exception, which is one of the TypeErrors
  of \<open>joinGroupByInviteCode\<close> and is recorded with its message.
\<close>

definition tally :: "Group \<Rightarrow> string + JoinResult \<Rightarrow> Summary \<Rightarrow> Summary" where
  "tally g r acc =
     (case r of
        Inr result \<Rightarrow>
          (if success result
           then (if alreadyInGroup result then acc\<lparr>alreadyIn := alreadyIn acc + 1\<rparr>
                 else acc\<lparr>joined := joined acc + 1\<rparr>)
           else acc\<lparr>failed := failed acc + 1\<rparr>)
          \<lparr>results := results acc @
             [\<lparr>success = success result, alreadyInGroup = alreadyInGroup result,
               error = error result, groupName = name g\<rparr>]\<rparr>
      | Inl e \<Rightarrow>
          acc\<lparr>failed := failed acc + 1,
              results := results acc @
                [\<lparr>success = False, alreadyInGroup = False, error = Some e,
                  groupName = name g\<rparr>]\<rparr>)"

text \<open>The \<open>for\<close> loop over the groups.\<close>

fun walk :: "Matrix \<Rightarrow> Group list \<Rightarrow> Summary \<Rightarrow> World \<Rightarrow> Summary \<times> World" where
  "walk M [] acc w = (acc, w)"
| "walk M (g # gs) acc w =
     (let joined_g = joinGroupByInviteCode M (inviteCode g) (name g) w
      in walk M gs (tally g (fst joined_g) acc) (snd joined_g))"

definition summaryMessage :: "Env \<Rightarrow> Summary \<Rightarrow> string" where
  "summaryMessage env s =
     ''*Auto-Join Groups Summary*'' @ nl @ nl @
     ''Successfully joined: '' @ digits (joined s) @ '' groups'' @ nl @
     ''Already in: '' @ digits (alreadyIn s) @ '' groups'' @ nl @
     ''Failed: '' @ digits (failed s) @ '' groups'' @ nl @
     ''Total: '' @ digits (total s) @ '' groups'' @ nl @ nl @
     ''Process completed at: '' @ format_time env (now env)"

definition errorMessage :: "Env \<Rightarrow> string option \<Rightarrow> string" where
  "errorMessage env e =
     ''*Auto-Join Groups Error*'' @ nl @ nl @
     ''Error: '' @ (case e of Some msg \<Rightarrow> msg | None \<Rightarrow> ''undefined'') @ nl @
     ''Time: '' @ format_time env (now env) @ nl @ nl @
     ''Please check the bot logs for details.''"

text \<open>
  The outer \<open>catch\<close>: report to the owner, then \<open>throw error\<close>. Composing the report reads
  \<open>error.message\<close>, which raises a TypeError in place of the report when the value caught is
  \<open>undefined\<close> or \<open>null\<close>. A rejection of the report is swallowed by \<open>.catch\<close>; a report call
  that throws replaces the error.
\<close>

definition rethrow ::
  "Config \<Rightarrow> Env \<Rightarrow> Matrix \<Rightarrow> Thrown \<Rightarrow> World \<Rightarrow> (Thrown + Summary) \<times> World"
where
  "rethrow cfg env M e w =
     (if owner_configured cfg
      then (case e of
              ThrownUndefined \<Rightarrow> (Inl (ThrownError (Some (TypeError_message ''undefined''))), w)
            | ThrownNull \<Rightarrow> (Inl (ThrownError (Some (TypeError_message ''null''))), w)
            | ThrownError m \<Rightarrow>
                (case perform M (SendMessage (BOT_OWNER cfg) (Text (errorMessage env m))) w of
                   (Throws e', w') \<Rightarrow> (Inl e', w')
                 | (_, w') \<Rightarrow> (Inl e, w')))
      else (Inl e, w))"

text \<open>
  \<open>handleAutoJoinGroups\<close>. After the loop the only statement that can raise is the summary
  send, and only by throwing before it returns its promise (a rejection is swallowed by
  \<open>.catch\<close>).
\<close>

definition handleAutoJoinGroups ::
  "Config \<Rightarrow> Env \<Rightarrow> Matrix \<Rightarrow> World \<Rightarrow> (Thrown + Summary) \<times> World"
where
  "handleAutoJoinGroups cfg env M w =
     (let groups = MANDATORY_GROUPS cfg;
          walked = walk M groups
                     \<lparr>total = length groups, joined = 0, alreadyIn = 0, failed = 0, results = []\<rparr>
                     (w\<lparr>console := console w @ [AutoJoinProcessing]\<rparr>);
          summary = fst walked;
          w1 = snd walked
      in if owner_configured cfg
         then (case perform M (SendMessage (BOT_OWNER cfg) (Text (summaryMessage env summary))) w1 of
                 (Throws e, w2) \<Rightarrow> rethrow cfg env M e w2
               | (_, w2) \<Rightarrow> (Inr summary, w2))
         else (Inr summary, w1))"

section \<open>Connect notification\<close>

text \<open>
  \<open>sendConnectMessage\<close>. The caption is the source's banner reduced to the values it
  interpolates; the fallback is a plain text to the owner.
\<close>

definition connectCaption :: "Config \<Rightarrow> Env \<Rightarrow> string \<Rightarrow> string" where
  "connectCaption cfg env botNumber =
     ''BUDDY-XTR'' @ nl @ ''Ignition: *'' @ PREFIX cfg @ ''*'' @ nl @
     ''Bot Number: '' @ botNumber @ nl @
     ''Connect Time: '' @ format_time env (now env) @ nl @
     ''Groups to auto-join: '' @ digits (length (MANDATORY_GROUPS cfg))"

definition simpleMessage :: "Config \<Rightarrow> Env \<Rightarrow> string" where
  "simpleMessage cfg env =
     ''Buddy-XTR Online!'' @ nl @ format_time env (now env) @ nl @
     ''Bot is now connected and running.'' @ nl @
     ''Will auto-join '' @ digits (length (MANDATORY_GROUPS cfg)) @ '' groups.''"

text \<open>
  Both \<open>catch\<close> blocks log \<open>error.message\<close>; on a caught \<open>undefined\<close> or \<open>null\<close> that raises a
  TypeError, which leaves the function. The result is the message of that TypeError, or
  \<open>None\<close> when the function returns.
\<close>

definition sendConnectMessage ::
  "Config \<Rightarrow> Env \<Rightarrow> Matrix \<Rightarrow> World \<Rightarrow> string option \<times> World"
where
  "sendConnectMessage cfg env M w =
     (if \<not> SEND_CONNECT_MESSAGE cfg then (None, w)
      else
        (let botJid = user_id M;
             targetJid = (if owner_configured cfg then Some (BOT_OWNER cfg)
                          else if truthy botJid then botJid else None);
             botNumber = (if truthy botJid then takeUntil ''@'' (orElse botJid []) else ''Unknown'')
         in case targetJid of
              None \<Rightarrow> (None, w)
            | Some target \<Rightarrow>
                (let sent = perform M (SendMessage target
                              (Image ''https://files.catbox.moe/qtvynm.jpg''
                                 (connectCaption cfg env botNumber))) w;
                     w1 = snd sent
                 in case failure (fst sent) of
                      None \<Rightarrow> (None, w1)
                    | Some v \<Rightarrow>
                        (case reading_message v of
                           Some typeError \<Rightarrow> (Some typeError, w1)
                         | None \<Rightarrow>
                             if owner_configured cfg
                             then (let again = perform M (SendMessage (BOT_OWNER cfg)
                                                 (Text (simpleMessage cfg env))) w1
                                   in case failure (fst again) of
                                        None \<Rightarrow> (None, snd again)
                                      | Some v2 \<Rightarrow> (reading_message v2, snd again))
                             else (None, w1)))))"

section \<open>Connection lifecycle\<close>

text \<open>
  The process state outside the feature handlers: the credential file \<open>creds.json\<close>, the
  flags \<open>useQR\<close> and \<open>initialConnection\<close>, the sockets made by \<open>makeWASocket\<close> (each with
  the options that depend on the state), the \<open>setInterval\<close> registrations (each bound to
  the socket of the \<open>start\<close> call that made it), whether \<open>process.exit(1)\<close> was called,
  and the promises that rejected with no handler attached.
\<close>

record Socket =
  printQRInTerminal :: bool
  auth :: "string option"

record Process =
  world :: World
  credsFile :: "string option"
  useQR :: bool
  initialConnection :: bool
  sockets :: "Socket list"
  timers :: "nat list"
  exited :: bool
  unhandled :: "Thrown list"

definition say :: "Log \<Rightarrow> Process \<Rightarrow> Process" where
  "say l p = p\<lparr>world := (world p)\<lparr>console := console (world p) @ [l]\<rparr>\<rparr>"

text \<open>
  \<open>start\<close>: read the credential directory, make a socket, register the handlers and the
  ten-minute timer. Any exception of the set-up ends the process.
\<close>

definition start :: "Env \<Rightarrow> Process \<Rightarrow> Process" where
  "start env p =
     (if engine_ok env
      then p\<lparr>sockets := sockets p @ [\<lparr>printQRInTerminal = useQR p, auth = credsFile p\<rparr>],
             timers := timers p @ [length (sockets p)]\<rparr>
      else (say CriticalError p)\<lparr>exited := True\<rparr>)"

text \<open>The \<open>setInterval\<close> callback: the run is neither awaited nor given a \<open>catch\<close>.\<close>

definition timer_callback :: "Config \<Rightarrow> Env \<Rightarrow> Matrix \<Rightarrow> Process \<Rightarrow> Process" where
  "timer_callback cfg env M p =
     (case handleAutoJoinGroups cfg env M (world p) of
        (Inl e, w1) \<Rightarrow> p\<lparr>world := w1, unhandled := unhandled p @ [e]\<rparr>
      | (Inr s, w1) \<Rightarrow> p\<lparr>world := w1\<rparr>)"

text \<open>
  The \<open>connection === 'open'\<close> branch. The handler is an async function without a \<open>try\<close>:
  an exception of the run, or of the connect notification, rejects its promise, which the
  event emitter drops.
\<close>

definition on_open :: "Config \<Rightarrow> Env \<Rightarrow> Matrix \<Rightarrow> Process \<Rightarrow> Process" where
  "on_open cfg env M p =
     (if initialConnection p
      then (case handleAutoJoinGroups cfg env M (world p) of
              (Inl e, w1) \<Rightarrow> p\<lparr>world := w1, unhandled := unhandled p @ [e]\<rparr>
            | (Inr joinResult, w1) \<Rightarrow>
                (case sendConnectMessage cfg env M w1 of
                   (Some typeError, w2) \<Rightarrow>
                     p\<lparr>world := w2, unhandled := unhandled p @ [ThrownError (Some typeError)]\<rparr>
                 | (None, w2) \<Rightarrow> p\<lparr>world := w2, initialConnection := False\<rparr>))
      else (case handleAutoJoinGroups cfg env M (world p) of
              (Inl e, w1) \<Rightarrow> p\<lparr>world := w1, unhandled := unhandled p @ [e]\<rparr>
            | (Inr joinResult, w1) \<Rightarrow>
                (case sendConnectMessage cfg env M w1 of
                   (Some typeError, w2) \<Rightarrow>
                     p\<lparr>world := w2, unhandled := unhandled p @ [ThrownError (Some typeError)]\<rparr>
                 | (None, w2) \<Rightarrow> p\<lparr>world := w2\<rparr>)))"

text \<open>
  The update object of \<open>connection.update\<close>. \<open>closeStatus\<close> is
  \<open>lastDisconnect.error?.output?.statusCode\<close>; \<open>DisconnectReason.loggedOut\<close> is the
  engine's constant 401.
\<close>

record BoomOutput =
  statusCode :: "int option"

record Boom =
  errorOutput :: "BoomOutput option"

record LastDisconnect =
  disconnectError :: "Boom option"

record Update =
  connection :: "string option"
  lastDisconnect :: "LastDisconnect option"

definition loggedOut :: int where
  "loggedOut = 401"

definition closeStatus :: "LastDisconnect \<Rightarrow> int option" where
  "closeStatus ld =
     (case disconnectError ld of
        None \<Rightarrow> None
      | Some boom \<Rightarrow> (case errorOutput boom of None \<Rightarrow> None | Some out \<Rightarrow> statusCode out))"

definition TypeError_error :: string where
  "TypeError_error =
     ''Cannot read properties of undefined (reading '' @ [CHR 0x27] @ ''error'' @ [CHR 0x27] @ '')''"

definition on_connection_update :: "Config \<Rightarrow> Env \<Rightarrow> Matrix \<Rightarrow> Update \<Rightarrow> Process \<Rightarrow> Process" where
  "on_connection_update cfg env M update p =
     (if connection update = Some ''close''
      then (case lastDisconnect update of
              None \<Rightarrow> p\<lparr>unhandled := unhandled p @ [ThrownError (Some TypeError_error)]\<rparr>
            | Some ld \<Rightarrow>
                if closeStatus ld \<noteq> Some loggedOut
                then start env (say Reconnecting p)
                else say LoggedOut p)
      else if connection update = Some ''open'' then on_open cfg env M p
      else p)"

text \<open>
  The events of a running process. Each socket has its own command surface; the timers
  fire together, one callback after the other. Nothing runs after \<open>process.exit\<close>.
\<close>

datatype Event =
    ConnectionUpdate nat Update
  | MessagesUpsert nat "WAMessage list"
  | TimersFire

definition tick :: "Config \<Rightarrow> Env \<Rightarrow> (nat \<Rightarrow> Matrix) \<Rightarrow> Process \<Rightarrow> Process" where
  "tick cfg env engine p = fold (\<lambda>sock. timer_callback cfg env (engine sock)) (timers p) p"

definition step :: "Config \<Rightarrow> (nat \<Rightarrow> Matrix) \<Rightarrow> Env \<times> Event \<Rightarrow> Process \<Rightarrow> Process" where
  "step cfg engine ev p =
     (if exited p then p
      else case snd ev of
        ConnectionUpdate sock update \<Rightarrow> on_connection_update cfg (fst ev) (engine sock) update p
      | MessagesUpsert sock batch \<Rightarrow>
          p\<lparr>world := messages_upsert cfg (fst ev) (engine sock) batch (world p)\<rparr>
      | TimersFire \<Rightarrow> tick cfg (fst ev) engine p)"

definition run :: "Config \<Rightarrow> (nat \<Rightarrow> Matrix) \<Rightarrow> (Env \<times> Event) list \<Rightarrow> Process \<Rightarrow> Process" where
  "run cfg engine evs p = fold (step cfg engine) evs p"

section \<open>Credential bootstrap\<close>

text \<open>
  \<open>loadGiftedSession\<close>: strip the marker, decode, check the two gzip magic bytes
  (\<open>compressedBuffer[0]\<close> of a shorter buffer is \<open>undefined\<close>), decompress, write the file.
  A failing decompression or write is caught and gives \<open>false\<close>.
\<close>

definition loadGiftedSession :: "Config \<Rightarrow> Env \<Rightarrow> Process \<Rightarrow> bool \<times> Process" where
  "loadGiftedSession cfg env p =
     (if \<not> truthy (SESSION_ID cfg) then (False, p)
      else if startsWith (orElse (SESSION_ID cfg) []) ''Buddy~''
      then (let compressedBase64 = drop (length ''Buddy~'') (orElse (SESSION_ID cfg) []);
                compressedBuffer = base64_decode env compressedBase64
            in case compressedBuffer of
                 b0 # b1 # rest \<Rightarrow>
                   if b0 = CHR 0x1F \<and> b1 = CHR 0x8B
                   then (case gunzip env compressedBuffer of
                           None \<Rightarrow> (False, p)
                         | Some decompressedBuffer \<Rightarrow>
                             if writeFile_ok env
                             then (True, p\<lparr>credsFile := Some (utf8_toString env decompressedBuffer)\<rparr>)
                             else (False, p))
                   else (False, p)
               | _ \<Rightarrow> (False, p))
      else (False, p))"

definition downloadLegacySession :: "Config \<Rightarrow> Env \<Rightarrow> Process \<Rightarrow> bool \<times> Process" where
  "downloadLegacySession cfg env p =
     (if \<not> truthy (SESSION_ID cfg) then (False, p)
      else
        (let sessdata = split1 ''Buddy~'' (orElse (SESSION_ID cfg) [])
         in if \<not> truthy sessdata \<or> \<not> str_includes (orElse sessdata []) ''#'' then (False, p)
            else
              (let fileID = takeUntil ''#'' (orElse sessdata []);
                   decryptKey = orElse (split1 ''#'' (orElse sessdata [])) []
               in case mega_download env fileID decryptKey of
                    None \<Rightarrow> (False, p)
                  | Some data \<Rightarrow>
                      if writeFile_ok env then (True, p\<lparr>credsFile := Some data\<rparr>)
                      else (False, p))))"

text \<open>\<open>init\<close>, the precedence chain; every branch ends in \<open>start\<close>.\<close>

definition init :: "Config \<Rightarrow> Env \<Rightarrow> Process \<Rightarrow> Process" where
  "init cfg env p =
     (if credsFile p \<noteq> None then start env p
      else if truthy (SESSION_ID cfg) \<and> startsWith (orElse (SESSION_ID cfg) []) ''Buddy~''
      then (case loadGiftedSession cfg env p of
              (True, p1) \<Rightarrow> start env p1
            | (False, p1) \<Rightarrow> start env (p1\<lparr>useQR := True\<rparr>))
      else if truthy (SESSION_ID cfg) \<and> str_includes (orElse (SESSION_ID cfg) []) ''Buddy~''
      then (case downloadLegacySession cfg env p of
              (True, p1) \<Rightarrow> start env p1
            | (False, p1) \<Rightarrow> start env (p1\<lparr>useQR := True\<rparr>))
      else start env (p\<lparr>useQR := True\<rparr>))"

text \<open>The process as the module leaves it before \<open>init()\<close> runs.\<close>

definition boot :: "string option \<Rightarrow> Process" where
  "boot file =
     \<lparr>world = \<lparr>messageStore = [], calls = [], console = []\<rparr>, credsFile = file, useQR = False,
      initialConnection = True, sockets = [], timers = [], exited = False, unhandled = []\<rparr>"


section \<open>Auxiliary notions and sample values\<close>

text \<open>
  What the cache holds after the puts \<open>ps\<close>: unique ids among those put, each entry with
  the clock reading of the last put of its id, and no id left out whose last put is more
  recent than a retained one.
\<close>

definition cache_inv :: "(string \<times> WAMessage \<times> nat) list \<Rightarrow> store \<Rightarrow> bool" where
  "cache_inv ps st \<longleftrightarrow>
     distinct (map fst st) \<and> fst ` set st \<subseteq> fst ` set ps \<and>
     (\<forall>p \<in> set st. last_put ps (fst p) = Some (timestamp (snd p))) \<and>
     (\<forall>k t. last_put ps k = Some t \<and> k \<notin> fst ` set st \<longrightarrow> (\<forall>p \<in> set st. t \<le> timestamp (snd p)))"

text \<open>The part of it that holds whatever the clock reads.\<close>

definition cache_base :: "(string \<times> WAMessage \<times> nat) list \<Rightarrow> store \<Rightarrow> bool" where
  "cache_base ps st \<longleftrightarrow>
     distinct (map fst st) \<and> fst ` set st \<subseteq> fst ` set ps \<and>
     (\<forall>p \<in> set st. last_put ps (fst p) = Some (timestamp (snd p)))"

text \<open>
  A plain-text message \<open>Hello world\<close>; the same message under another id; the put of
  message number \<open>i\<close>, with id \<open>m\<close> repeated \<open>i + 1\<close> times, at time \<open>10 + i\<close>; 1001 such puts;
  and 1000 such puts followed by a new message at the earlier time 5 and by the first
  message once more at the time 3, as when the system clock is set back.
\<close>

definition sample_mek :: WAMessage where
  "sample_mek = \<lparr>key = \<lparr>remoteJid = Some ''254700000000@s.whatsapp.net'', fromMe = False,
       keyId = Some ''M1'', participant = None\<rparr>,
     message = Some \<lparr>conversation = Some ''Hello world'', extendedTextMessage = None,
       imageMessage = None, videoMessage = None, audioMessage = False, documentMessage = None,
       stickerMessage = False, protocolMessage = None, ephemeralMessage = False,
       reactionMessage = False\<rparr>,
     pushName = Some ''Ann''\<rparr>"

definition mek_with_id :: "string \<Rightarrow> WAMessage" where
  "mek_with_id k = sample_mek\<lparr>key := (key sample_mek)\<lparr>keyId := Some k\<rparr>\<rparr>"

definition put_of :: "nat \<Rightarrow> string \<times> WAMessage \<times> nat" where
  "put_of i = (replicate (Suc i) CHR ''m'', mek_with_id (replicate (Suc i) CHR ''m''), 10 + i)"

definition sample_puts :: "(string \<times> WAMessage \<times> nat) list" where
  "sample_puts = map put_of [0..<1001]"

definition backward_puts :: "(string \<times> WAMessage \<times> nat) list" where
  "backward_puts = map put_of [0..<1000] @ [(''x'', mek_with_id ''x'', 5), (''m'', mek_with_id ''m'', 3)]"

text \<open>The cache after the first 1000 of these puts.\<close>

definition thousand :: store where
  "thousand = map (\<lambda>p. (fst p, stored (fst (snd p)) (snd (snd p)))) (map put_of [0..<1000])"

text \<open>
  A configuration with delete recovery on and no report recipient, a deletion notice for
  the retained message \<open>M1\<close>, a cache that retains it, an engine whose calls all succeed
  and one that cannot deliver to the report recipient.
\<close>

definition sample_chat :: string where
  "sample_chat = ''254700000000@s.whatsapp.net''"

definition sample_cfg :: Config where
  "sample_cfg = \<lparr>ANTI_DELETE_ENABLED = True, AUTO_VIEW_STATUS = False, AUTO_LIKE_STATUS = False,
     BOT_OWNER = [], SEND_CONNECT_MESSAGE = True, SESSION_ID = None, AUTO_STATUS_SEEN = False,
     AUTO_STATUS_REPLY = False, STATUS_READ_MSG = None, AUTO_JOIN_GROUP_LINKS = [],
     PREFIX = ''.''\<rparr>"

definition sample_owner :: string where
  "sample_owner = ''254711111111@s.whatsapp.net''"

definition deletion_notice :: WAMessage where
  "deletion_notice = \<lparr>key = \<lparr>remoteJid = Some sample_chat, fromMe = False,
       keyId = Some ''D1'', participant = None\<rparr>,
     message = Some \<lparr>conversation = None, extendedTextMessage = None,
       imageMessage = None, videoMessage = None, audioMessage = False, documentMessage = None,
       stickerMessage = False,
       protocolMessage = Some \<lparr>ptype = Some 0, pkey = Some \<lparr>remoteJid = Some sample_chat,
         fromMe = False, keyId = Some ''M1'', participant = None\<rparr>\<rparr>,
       ephemeralMessage = False, reactionMessage = False\<rparr>,
     pushName = Some ''Ann''\<rparr>"

definition sample_world :: World where
  "sample_world = \<lparr>messageStore = [(''M1'', stored sample_mek 1000)], calls = [], console = []\<rparr>"

definition all_ok :: Matrix where
  "all_ok = \<lparr>respond = (\<lambda>n c. Ok), user_id = None\<rparr>"

definition owner_unreachable :: Matrix where
  "owner_unreachable =
     \<lparr>respond = (\<lambda>n c. case c of
          SendMessage jid content \<Rightarrow>
            if jid = sample_owner then Rejects (ThrownError (Some ''timed out'')) else Ok
        | _ \<Rightarrow> Ok),
      user_id = None\<rparr>"

text \<open>
  Notions used to state what the reconciler does: the call made for a group, the result of
  the join of a group whose call is call number \<open>n\<close>, the entry the loop pushes for it, the
  entries of a whole pass, a failure that the \<open>catch\<close> block leaves unclassified (a value
  whose message cannot be read, so that the join throws, or a message with none of the
  five words) with the error text recorded for it, and a summary whose counters agree with
  its entries.
\<close>

definition accept_call :: "Group \<Rightarrow> Call" where
  "accept_call g = GroupAcceptInvite (invite_code_of (inviteCode g))"

definition reply :: "Matrix \<Rightarrow> nat \<Rightarrow> Group \<Rightarrow> string + JoinResult" where
  "reply M n g = join_result (name g) (respond M n (accept_call g))"

definition entry :: "Group \<Rightarrow> string + JoinResult \<Rightarrow> JoinResult" where
  "entry g r =
     (case r of Inr x \<Rightarrow> \<lparr>success = success x, alreadyInGroup = alreadyInGroup x,
                           error = error x, groupName = name g\<rparr>
      | Inl e \<Rightarrow> \<lparr>success = False, alreadyInGroup = False, error = Some e, groupName = name g\<rparr>)"

fun replies :: "Matrix \<Rightarrow> nat \<Rightarrow> Group list \<Rightarrow> JoinResult list" where
  "replies M n [] = []"
| "replies M n (g # gs) = entry g (reply M n g) # replies M (Suc n) gs"

definition throws_at_join :: "Thrown \<Rightarrow> bool" where
  "throws_at_join v = (v = ThrownUndefined \<or> v = ThrownNull \<or> v = ThrownError None)"

definition unclassified :: "Thrown \<Rightarrow> bool" where
  "unclassified v =
     (case v of
        ThrownError (Some msg) \<Rightarrow>
          \<not> (str_includes msg ''already'' \<or> str_includes msg ''invite'' \<or>
             str_includes msg ''invalid'' \<or> str_includes msg ''rate'' \<or> str_includes msg ''limit'')
      | _ \<Rightarrow> True)"

definition other_text :: "Thrown \<Rightarrow> string" where
  "other_text v =
     (case v of
        ThrownUndefined \<Rightarrow> TypeError_message ''undefined''
      | ThrownNull \<Rightarrow> TypeError_message ''null''
      | ThrownError None \<Rightarrow> TypeError_includes
      | ThrownError (Some msg) \<Rightarrow> msg)"

definition consistent :: "Summary \<Rightarrow> bool" where
  "consistent s \<longleftrightarrow>
     failed s = length (filter (\<lambda>r. \<not> success r) (results s)) \<and>
     alreadyIn s = length (filter (\<lambda>r. success r \<and> alreadyInGroup r) (results s)) \<and>
     joined s = length (filter (\<lambda>r. success r \<and> \<not> alreadyInGroup r) (results s))"

text \<open>
  Notions used to state the lifecycle: a close event with a cause other than logged-out,
  the part of the process state that only \<open>init\<close> and \<open>start\<close> write, a process whose
  timers are exactly one per socket, and the close update with a given status code.
\<close>

definition recoverable_close :: "Event \<Rightarrow> bool" where
  "recoverable_close ev =
     (case ev of
        ConnectionUpdate sock update \<Rightarrow>
          connection update = Some ''close'' \<and>
          (case lastDisconnect update of
             None \<Rightarrow> False
           | Some ld \<Rightarrow> closeStatus ld \<noteq> Some loggedOut)
      | _ \<Rightarrow> False)"

definition lifecycle :: "Process \<Rightarrow> string option \<times> bool \<times> Socket list \<times> nat list \<times> bool" where
  "lifecycle p = (credsFile p, useQR p, sockets p, timers p, exited p)"

definition wired :: "Process \<Rightarrow> bool" where
  "wired p \<longleftrightarrow> \<not> exited p \<and> timers p = [0..<length (sockets p)]"

definition close_update :: "int option \<Rightarrow> Update" where
  "close_update code = \<lparr>connection = Some ''close'',
     lastDisconnect = Some \<lparr>disconnectError = Some \<lparr>errorOutput = Some \<lparr>statusCode = code\<rparr>\<rparr>\<rparr>\<rparr>"

text \<open>
  Sample environments and configurations: an environment with no decoder and no archive;
  five targets (two configured links); an engine whose third call rejects with a given
  value; a configured report recipient and an engine whose \<open>sendMessage\<close> throws; a legacy
  session identifier with an environment in which the archive can be downloaded; the gzip
  stream of \<open>SESSIONDATA\<close>, its base64 text and an environment that decodes them; two
  reconnects.
\<close>

definition sample_env :: Env where
  "sample_env = \<lparr>now = 2000, format_time = digits, random_index = 0,
     base64_decode = (\<lambda>s. []), gunzip = (\<lambda>b. None), utf8_toString = (\<lambda>b. b),
     writeFile_ok = True, mega_download = (\<lambda>fileID decryptKey. None), engine_ok = True\<rparr>"

definition five_cfg :: Config where
  "five_cfg = sample_cfg\<lparr>AUTO_JOIN_GROUP_LINKS :=
     [''https://chat.whatsapp.com/AAAA'', ''https://chat.whatsapp.com/BBBB'']\<rparr>"

definition five_groups :: "Group list" where
  "five_groups =
     [\<lparr>name = ''Group 1'', inviteLink = ''https://chat.whatsapp.com/DdhFa7LbzeTKRG9hSHkzoW'',
        inviteCode = ''DdhFa7LbzeTKRG9hSHkzoW''\<rparr>,
      \<lparr>name = ''Group 2'', inviteLink = ''https://chat.whatsapp.com/Dn0uPVabXugIro9BgmGilM'',
        inviteCode = ''Dn0uPVabXugIro9BgmGilM''\<rparr>,
      \<lparr>name = ''Group 3'', inviteLink = ''https://chat.whatsapp.com/F4wbivBj6Qg1ZPDAi9GAag'',
        inviteCode = ''F4wbivBj6Qg1ZPDAi9GAag''\<rparr>,
      \<lparr>name = ''Config Group 1'', inviteLink = ''https://chat.whatsapp.com/AAAA'',
        inviteCode = ''AAAA''\<rparr>,
      \<lparr>name = ''Config Group 2'', inviteLink = ''https://chat.whatsapp.com/BBBB'',
        inviteCode = ''BBBB''\<rparr>]"

definition third_fails :: "Thrown \<Rightarrow> Matrix" where
  "third_fails v = \<lparr>respond = (\<lambda>n c. if n = 2 then Rejects v else Ok), user_id = None\<rparr>"



definition legacy_cfg :: Config where
  "legacy_cfg = sample_cfg\<lparr>SESSION_ID := Some ''old;Buddy~FILEID#KEY''\<rparr>"

definition archive_env :: Env where
  "archive_env = sample_env\<lparr>mega_download :=
     (\<lambda>fileID decryptKey. if fileID = ''FILEID'' \<and> decryptKey = ''KEY'' then Some ''CREDS'' else None)\<rparr>"

definition session_gz :: string where
  "session_gz = [CHR 0x1F, CHR 0x8B, CHR 0x08, CHR 0x00, CHR 0x00, CHR 0x00, CHR 0x00, CHR 0x00,
     CHR 0x02, CHR 0x03, CHR 0x0B, CHR 0x76, CHR 0x0D, CHR 0x0E, CHR 0xF6, CHR 0xF4, CHR 0xF7,
     CHR 0x73, CHR 0x71, CHR 0x0C, CHR 0x71, CHR 0x04, CHR 0x00, CHR 0x4B, CHR 0xE0, CHR 0x42,
     CHR 0x10, CHR 0x0B, CHR 0x00, CHR 0x00, CHR 0x00]"

definition session_b64 :: string where
  "session_b64 = ''H4sIAAAAAAACAwt2DQ729PdzcQxxBABL4EIQCwAAAA==''"

definition gifted_cfg :: Config where
  "gifted_cfg = sample_cfg\<lparr>SESSION_ID := Some (''Buddy~'' @ session_b64)\<rparr>"

definition gifted_env :: Env where
  "gifted_env = sample_env\<lparr>
     base64_decode := (\<lambda>s. if s = session_b64 then session_gz else []),
     gunzip := (\<lambda>b. if b = session_gz then Some ''SESSIONDATA'' else None)\<rparr>"

definition two_reconnects :: "(Env \<times> Event) list" where
  "two_reconnects =
     [(sample_env, ConnectionUpdate 0 (close_update (Some 428))),
      (sample_env, ConnectionUpdate 1 (close_update (Some 408)))]"

text \<open>The rest of the theory proves properties of the definitions above.\<close>

section \<open>The retention cache is bounded and keeps the most recent entries\<close>

lemma run_puts_snoc: "run_puts (ps @ [(k, mek, tm)]) st = retain k mek tm (run_puts ps st)"
  by (induction ps arbitrary: st) auto

lemma hd_sort_key_in: "st \<noteq> [] \<Longrightarrow> hd (sort_key f st) \<in> set st"
proof -
  assume "st \<noteq> []"
  then have "sort_key f st \<noteq> []" by (metis length_sort length_0_conv)
  then have "hd (sort_key f st) \<in> set (sort_key f st)" by (rule hd_in_set)
  then show ?thesis by simp
qed

lemma hd_sort_key_least: "x \<in> set st \<Longrightarrow> f (hd (sort_key f st)) \<le> f x"
proof -
  assume x: "x \<in> set st"
  obtain y ys where ys: "sort_key f st = y # ys"
    using x by (cases "sort_key f st") (auto dest: arg_cong [where f = set])
  have "sorted (map f (y # ys))" using sorted_sort_key [of f st] ys by simp
  moreover have "x \<in> set (y # ys)" using x ys set_sort [of f st] by simp
  ultimately show ?thesis using ys by auto
qed

lemma length_update:
  "length (AList.update k v st) = (if k \<in> fst ` set st then length st else Suc (length st))"
  by (induction st) auto

lemma length_delete:
  "distinct (map fst st) \<Longrightarrow> k \<in> fst ` set st \<Longrightarrow> Suc (length (AList.delete k st)) = length st"
  by (induction st) (auto simp: rev_image_eqI)

lemma set_delete: "set (AList.delete k st) = {p \<in> set st. fst p \<noteq> k}"
  by (auto simp: AList.delete_eq)

lemma set_update:
  "distinct (map fst st) \<Longrightarrow> set (AList.update k v st) = insert (k, v) {p \<in> set st. fst p \<noteq> k}"
  by (induction st) (auto simp: rev_image_eqI)

lemma last_put_snoc:
  "last_put (ps @ [(k, mek, tm)]) k' = (if k' = k then Some tm else last_put ps k')"
  by (simp add: last_put_def)

lemma last_put_Some_in: "last_put ps k = Some t \<Longrightarrow> \<exists>m. (k, m, t) \<in> set ps"
proof -
  assume "last_put ps k = Some t"
  then have "(k, t) \<in> set (rev (map (\<lambda>p. (fst p, snd (snd p))) ps))"
    unfolding last_put_def by (rule map_of_SomeD)
  then show ?thesis by force
qed

lemma last_put_dom: "k \<in> fst ` set ps \<Longrightarrow> \<exists>t. last_put ps k = Some t"
proof -
  assume "k \<in> fst ` set ps"
  then have "k \<in> fst ` set (rev (map (\<lambda>p. (fst p, snd (snd p))) ps))" by force
  then show ?thesis unfolding last_put_def by (metis domD dom_map_of_conv_image_fst)
qed

lemma cache_inv_update:
  assumes inv: "cache_inv ps st" and clock: "\<forall>p \<in> set ps. snd (snd p) \<le> tm"
  shows "cache_inv (ps @ [(k, mek, tm)]) (AList.update k (stored mek tm) st)"
proof -
  let ?st1 = "AList.update k (stored mek tm) st"
  let ?ps1 = "ps @ [(k, mek, tm)]"
  from inv have d: "distinct (map fst st)" by (simp add: cache_inv_def)
  have s1: "set ?st1 = insert (k, stored mek tm) {p \<in> set st. fst p \<noteq> k}"
    using d by (rule set_update)
  have ts: "timestamp (stored mek tm) = tm" by (simp add: stored_def)
  have old: "t \<le> tm" if "last_put ps k' = Some t" for k' t
    using last_put_Some_in [OF that] clock by force
  have "distinct (map fst ?st1)" using d by (simp add: distinct_update)
  moreover have "fst ` set ?st1 \<subseteq> fst ` set ?ps1"
    using inv by (auto simp: cache_inv_def dom_update)
  moreover have "\<forall>p \<in> set ?st1. last_put ?ps1 (fst p) = Some (timestamp (snd p))"
    using inv by (auto simp: s1 ts last_put_snoc cache_inv_def)
  moreover have "\<forall>k' t. last_put ?ps1 k' = Some t \<and> k' \<notin> fst ` set ?st1 \<longrightarrow>
      (\<forall>p \<in> set ?st1. t \<le> timestamp (snd p))"
  proof (intro allI impI ballI)
    fix k' t p
    assume h: "last_put ?ps1 k' = Some t \<and> k' \<notin> fst ` set ?st1" and p: "p \<in> set ?st1"
    from h have ne: "k' \<noteq> k" and nin: "k' \<notin> fst ` set st" by (auto simp: dom_update)
    from h ne have lp: "last_put ps k' = Some t" by (simp add: last_put_snoc)
    from p s1 consider "p = (k, stored mek tm)" | "p \<in> set st" by auto
    then show "t \<le> timestamp (snd p)"
    proof cases
      case 1 then show ?thesis using old [OF lp] ts by simp
    next
      case 2 then show ?thesis using inv lp nin by (auto simp: cache_inv_def)
    qed
  qed
  ultimately show ?thesis by (simp add: cache_inv_def)
qed

lemma cache_inv_evict:
  assumes inv: "cache_inv ps st" and ne: "st \<noteq> []"
  shows "cache_inv ps (AList.delete (oldestKey st) st)"
proof -
  let ?e = "hd (sort_key (\<lambda>e. timestamp (snd e)) st)"
  let ?st2 = "AList.delete (oldestKey st) st"
  have k0: "oldestKey st = fst ?e" by (simp add: oldestKey_def)
  have ein: "?e \<in> set st" using ne by (rule hd_sort_key_in)
  have least: "timestamp (snd ?e) \<le> timestamp (snd p)" if "p \<in> set st" for p
    using hd_sort_key_least [OF that, of "\<lambda>e. timestamp (snd e)"] .
  from inv have d: "distinct (map fst st)" by (simp add: cache_inv_def)
  have sub: "set ?st2 \<subseteq> set st" by (auto simp: set_delete)
  have "distinct (map fst ?st2)" using d by (simp add: distinct_delete)
  moreover have "fst ` set ?st2 \<subseteq> fst ` set ps"
    using inv sub by (auto simp: cache_inv_def)
  moreover have "\<forall>p \<in> set ?st2. last_put ps (fst p) = Some (timestamp (snd p))"
    using inv sub by (auto simp: cache_inv_def)
  moreover have "\<forall>k' t. last_put ps k' = Some t \<and> k' \<notin> fst ` set ?st2 \<longrightarrow>
      (\<forall>p \<in> set ?st2. t \<le> timestamp (snd p))"
  proof (intro allI impI ballI)
    fix k' t p
    assume h: "last_put ps k' = Some t \<and> k' \<notin> fst ` set ?st2" and p: "p \<in> set ?st2"
    from p sub have pin: "p \<in> set st" by auto
    show "t \<le> timestamp (snd p)"
    proof (cases "k' \<in> fst ` set st")
      case False
      then show ?thesis using inv h pin by (auto simp: cache_inv_def)
    next
      case True
      then obtain q where q: "q \<in> set st" "fst q = k'" by auto
      with h have "k' = oldestKey st" by (force simp: set_delete)
      with q d ein k0 have "q = ?e" by (metis eq_key_imp_eq_value prod.collapse)
      moreover from inv q have "last_put ps k' = Some (timestamp (snd q))"
        by (auto simp: cache_inv_def)
      ultimately have "t = timestamp (snd ?e)" using h by simp
      then show ?thesis using least [OF pin] by simp
    qed
  qed
  ultimately show ?thesis by (simp add: cache_inv_def)
qed


lemma card_keys: "distinct (map fst st) \<Longrightarrow> card (fst ` set st) = length st"
  using distinct_card [of "map fst st"] by simp

lemma cache_inv_base: "cache_inv ps st \<Longrightarrow> cache_base ps st"
  by (simp add: cache_inv_def cache_base_def)

lemma retain_length:
  assumes inv: "cache_base ps st" and len: "length st = min 1000 (card (fst ` set ps))"
  shows "length (retain k mek tm st) = min 1000 (card (fst ` set (ps @ [(k, mek, tm)])))"
proof -
  let ?st1 = "AList.update k (stored mek tm) st"
  from inv have d: "distinct (map fst st)" and sub: "fst ` set st \<subseteq> fst ` set ps"
    by (simp_all add: cache_base_def)
  have d1: "distinct (map fst ?st1)" using d by (simp add: distinct_update)
  have ids: "fst ` set (ps @ [(k, mek, tm)]) = insert k (fst ` set ps)" by simp
  have ev: "Suc (length (AList.delete (oldestKey ?st1) ?st1)) = length ?st1"
  proof (rule length_delete [OF d1])
    have "hd (sort_key (\<lambda>e. timestamp (snd e)) ?st1) \<in> set ?st1"
      by (rule hd_sort_key_in) simp
    then show "oldestKey ?st1 \<in> fst ` set ?st1" by (simp add: oldestKey_def)
  qed
  consider (present) "k \<in> fst ` set st" | (evicted) "k \<notin> fst ` set st" "k \<in> fst ` set ps"
    | (fresh) "k \<notin> fst ` set ps" using sub by blast
  then show ?thesis
  proof cases
    case present
    then have "length ?st1 = length st" by (simp add: length_update)
    moreover have "insert k (fst ` set ps) = fst ` set ps" using present sub by blast
    ultimately show ?thesis using len by (simp add: retain_def Let_def ids del: set_append)
  next
    case evicted
    then have "fst ` set st \<subset> fst ` set ps" using sub by blast
    then have "card (fst ` set st) < card (fst ` set ps)" by (simp add: psubset_card_mono)
    then have lt: "length st < card (fst ` set ps)" using card_keys [OF d] by simp
    with len have l: "length st = 1000" by simp
    have "length ?st1 = 1001" using evicted l by (simp add: length_update)
    moreover have "insert k (fst ` set ps) = fst ` set ps" using evicted by blast
    ultimately show ?thesis using ev lt l by (simp add: retain_def Let_def ids del: set_append)
  next
    case fresh
    then have nin: "k \<notin> fst ` set st" using sub by blast
    have c: "card (insert k (fst ` set ps)) = Suc (card (fst ` set ps))" using fresh by simp
    have l1: "length ?st1 = Suc (length st)" using nin by (simp add: length_update)
    show ?thesis
    proof (cases "length st = 1000")
      case True
      then show ?thesis using ev l1 len c by (simp add: retain_def Let_def ids del: set_append)
    next
      case False
      then have "length st < 1000" using len by simp
      then show ?thesis using l1 len c by (simp add: retain_def Let_def ids del: set_append)
    qed
  qed
qed

lemma retain_inv:
  assumes inv: "cache_inv ps st" and clock: "\<forall>p \<in> set ps. snd (snd p) \<le> tm"
  shows "cache_inv (ps @ [(k, mek, tm)]) (retain k mek tm st)"
proof -
  have 1: "cache_inv (ps @ [(k, mek, tm)]) (AList.update k (stored mek tm) st)"
    using inv clock by (rule cache_inv_update)
  show ?thesis
    unfolding retain_def Let_def using 1 cache_inv_evict [OF 1] by simp
qed

text \<open>
  A put of an id that the cache does not hold keeps the invariant whatever the clock reads:
  below the bound nothing was ever evicted, and at the bound the entry evicted is a
  smallest one.
\<close>

lemma cache_inv_retain_absent:
  assumes inv: "cache_inv ps st" and len: "length st = min 1000 (card (fst ` set ps))"
    and absent: "k \<notin> fst ` set st"
  shows "cache_inv (ps @ [(k, mek, tm)]) (retain k mek tm st)"
proof -
  let ?new = "(k, stored mek tm)"
  let ?st1 = "AList.update k (stored mek tm) st"
  let ?ps1 = "ps @ [(k, mek, tm)]"
  from inv have d: "distinct (map fst st)" and sub: "fst ` set st \<subseteq> fst ` set ps"
    and latest: "\<forall>p \<in> set st. last_put ps (fst p) = Some (timestamp (snd p))"
    and top: "\<forall>k t. last_put ps k = Some t \<and> k \<notin> fst ` set st \<longrightarrow>
                (\<forall>p \<in> set st. t \<le> timestamp (snd p))"
    by (simp_all add: cache_inv_def)
  have s1: "set ?st1 = insert ?new (set st)"
    using set_update [OF d, of k "stored mek tm"] absent by force
  have d1: "distinct (map fst ?st1)" using d by (simp add: distinct_update)
  have sub1: "fst ` set ?st1 \<subseteq> fst ` set ?ps1" using sub by (auto simp: dom_update)
  have latest1: "\<forall>p \<in> set ?st1. last_put ?ps1 (fst p) = Some (timestamp (snd p))"
  proof
    fix p assume "p \<in> set ?st1"
    then consider "p = ?new" | "p \<in> set st" "fst p \<noteq> k" using s1 absent by force
    then show "last_put ?ps1 (fst p) = Some (timestamp (snd p))"
    proof cases
      case 1 then show ?thesis by (simp add: last_put_snoc stored_def)
    next
      case 2 then show ?thesis using latest by (simp add: last_put_snoc)
    qed
  qed
  show ?thesis
  proof (cases "length ?st1 > 1000")
    case False
    then have "length st < 1000" using absent by (simp add: length_update)
    with len have "card (fst ` set st) = card (fst ` set ps)" using card_keys [OF d] by simp
    with sub have all: "fst ` set st = fst ` set ps" by (simp add: card_subset_eq)
    have "k' \<in> fst ` set ?st1" if "last_put ?ps1 k' = Some t" for k' t
    proof -
      from last_put_Some_in [OF that] have "k' \<in> fst ` set ?ps1" by force
      then show ?thesis using all by (auto simp: dom_update)
    qed
    then have "\<forall>k' t. last_put ?ps1 k' = Some t \<and> k' \<notin> fst ` set ?st1 \<longrightarrow>
        (\<forall>p \<in> set ?st1. t \<le> timestamp (snd p))"
      by blast
    with d1 sub1 latest1 False show ?thesis by (simp add: retain_def Let_def cache_inv_def)
  next
    case True
    let ?q = "hd (sort_key (\<lambda>e. timestamp (snd e)) ?st1)"
    let ?st2 = "AList.delete (oldestKey ?st1) ?st1"
    have k0: "oldestKey ?st1 = fst ?q" by (simp add: oldestKey_def)
    have qin: "?q \<in> set ?st1" by (rule hd_sort_key_in) simp
    have least: "timestamp (snd ?q) \<le> timestamp (snd p)" if "p \<in> set ?st1" for p
      using hd_sort_key_least [OF that, of "\<lambda>e. timestamp (snd e)"] .
    have sub2: "set ?st2 \<subseteq> set ?st1" by (auto simp: set_delete)
    have "distinct (map fst ?st2)" using d1 by (simp add: distinct_delete)
    moreover have "fst ` set ?st2 \<subseteq> fst ` set ?ps1" using sub1 sub2 by blast
    moreover have "\<forall>p \<in> set ?st2. last_put ?ps1 (fst p) = Some (timestamp (snd p))"
      using latest1 sub2 by blast
    moreover have "\<forall>k' t. last_put ?ps1 k' = Some t \<and> k' \<notin> fst ` set ?st2 \<longrightarrow>
        (\<forall>p \<in> set ?st2. t \<le> timestamp (snd p))"
    proof (intro allI impI ballI)
      fix k' t p
      assume h: "last_put ?ps1 k' = Some t \<and> k' \<notin> fst ` set ?st2" and p: "p \<in> set ?st2"
      from p sub2 have pin: "p \<in> set ?st1" by blast
      show "t \<le> timestamp (snd p)"
      proof (cases "k' \<in> fst ` set ?st1")
        case True
        then obtain r where r: "r \<in> set ?st1" "fst r = k'" by auto
        with h have "k' = fst ?q" by (force simp: set_delete k0)
        with r d1 qin have "r = ?q" by (metis eq_key_imp_eq_value prod.collapse)
        moreover from latest1 r have "last_put ?ps1 k' = Some (timestamp (snd r))" by auto
        ultimately have "t = timestamp (snd ?q)" using h by simp
        then show ?thesis using least [OF pin] by simp
      next
        case False
        then have ne: "k' \<noteq> k" and nin: "k' \<notin> fst ` set st" by (auto simp: dom_update)
        from h ne have lp: "last_put ps k' = Some t" by (simp add: last_put_snoc)
        from pin s1 consider "p \<in> set st" | "p = ?new" by auto
        then show ?thesis
        proof cases
          case 1
          then show ?thesis using top lp nin by blast
        next
          case 2
          from p have "fst p \<noteq> fst ?q" by (simp add: set_delete k0)
          with 2 have "?q \<noteq> ?new" by auto
          with qin s1 have "?q \<in> set st" by auto
          then have "t \<le> timestamp (snd ?q)" using top lp nin by blast
          then show ?thesis using least [OF pin] by simp
        qed
      qed
    qed
    ultimately show ?thesis using True by (simp add: retain_def Let_def cache_inv_def)
  qed
qed

lemma retain_inv_either:
  assumes inv: "cache_inv ps st" and len: "length st = min 1000 (card (fst ` set ps))"
    and ok: "(\<forall>p \<in> set ps. snd (snd p) \<le> tm) \<or> k \<notin> fst ` set st"
  shows "cache_inv (ps @ [(k, mek, tm)]) (retain k mek tm st)"
  using ok retain_inv [OF inv] cache_inv_retain_absent [OF inv len] by blast

lemma run_puts_inv:
  "sorted (map (\<lambda>p. snd (snd p)) ps) \<or> distinct (map fst ps) \<Longrightarrow>
     cache_inv ps (run_puts ps []) \<and> length (run_puts ps []) = min 1000 (card (fst ` set ps))"
proof (induction ps rule: rev_induct)
  case Nil
  show ?case by (simp add: cache_inv_def last_put_def)
next
  case (snoc p ps)
  obtain k mek tm where p: "p = (k, mek, tm)" by (cases p) auto
  from snoc.prems have s: "sorted (map (\<lambda>p. snd (snd p)) ps) \<or> distinct (map fst ps)"
    by (auto simp: sorted_append)
  note ih = snoc.IH [OF s]
  from ih have sub: "fst ` set (run_puts ps []) \<subseteq> fst ` set ps" by (simp add: cache_inv_def)
  from snoc.prems sub have ok: "(\<forall>q \<in> set ps. snd (snd q) \<le> tm) \<or> k \<notin> fst ` set (run_puts ps [])"
    by (auto simp: p sorted_append)
  from ih show ?case
    unfolding p run_puts_snoc
    using retain_inv_either [OF _ _ ok] retain_length [OF cache_inv_base] by blast
qed

lemma retain_evicts_once:
  assumes d: "distinct (map fst st)"
  shows "(let st1 = AList.update k (stored mek tm) st; st' = retain k mek tm st
          in if length st1 \<le> 1000 then st' = st1
             else \<exists>q \<in> set st1. (\<forall>p \<in> set st1. timestamp (snd q) \<le> timestamp (snd p)) \<and>
                    set st' = set st1 - {q} \<and> Suc (length st') = length st1)"
proof -
  let ?st1 = "AList.update k (stored mek tm) st"
  let ?q = "hd (sort_key (\<lambda>e. timestamp (snd e)) ?st1)"
  have d1: "distinct (map fst ?st1)" using d by (simp add: distinct_update)
  have qin: "?q \<in> set ?st1" by (rule hd_sort_key_in) simp
  have least: "\<forall>p \<in> set ?st1. timestamp (snd ?q) \<le> timestamp (snd p)"
    using hd_sort_key_least [of _ ?st1 "\<lambda>e. timestamp (snd e)"] by blast
  have "p = ?q" if "p \<in> set ?st1" "fst p = fst ?q" for p
    using that d1 qin by (metis eq_key_imp_eq_value prod.collapse)
  then have "{p \<in> set ?st1. fst p \<noteq> fst ?q} = set ?st1 - {?q}" by auto
  then have s: "set (AList.delete (oldestKey ?st1) ?st1) = set ?st1 - {?q}"
    by (simp add: set_delete oldestKey_def)
  have l: "Suc (length (AList.delete (oldestKey ?st1) ?st1)) = length ?st1"
    using qin by (intro length_delete [OF d1]) (simp add: oldestKey_def)
  show ?thesis
    unfolding Let_def retain_def using qin least s l by auto
qed

lemma cache_base_retain:
  assumes base: "cache_base ps st"
  shows "cache_base (ps @ [(k, mek, tm)]) (retain k mek tm st)"
proof -
  let ?st1 = "AList.update k (stored mek tm) st"
  let ?ps1 = "ps @ [(k, mek, tm)]"
  from base have d: "distinct (map fst st)" and sub: "fst ` set st \<subseteq> fst ` set ps"
    and latest: "\<forall>p \<in> set st. last_put ps (fst p) = Some (timestamp (snd p))"
    by (simp_all add: cache_base_def)
  have s1: "set ?st1 = insert (k, stored mek tm) {p \<in> set st. fst p \<noteq> k}"
    using d by (rule set_update)
  have d1: "distinct (map fst ?st1)" using d by (simp add: distinct_update)
  have sub1: "fst ` set ?st1 \<subseteq> fst ` set ?ps1" using sub by (auto simp: dom_update)
  have latest1: "\<forall>p \<in> set ?st1. last_put ?ps1 (fst p) = Some (timestamp (snd p))"
  proof
    fix p assume "p \<in> set ?st1"
    then consider "p = (k, stored mek tm)" | "p \<in> set st" "fst p \<noteq> k" using s1 by force
    then show "last_put ?ps1 (fst p) = Some (timestamp (snd p))"
    proof cases
      case 1 then show ?thesis by (simp add: last_put_snoc stored_def)
    next
      case 2 then show ?thesis using latest by (simp add: last_put_snoc)
    qed
  qed
  have b1: "cache_base ?ps1 ?st1" using d1 sub1 latest1 by (simp add: cache_base_def)
  have sub2: "set (AList.delete k' ?st1) \<subseteq> set ?st1" for k' by (auto simp: set_delete)
  have b2: "cache_base ?ps1 (AList.delete k' ?st1)" for k'
    unfolding cache_base_def
  proof (intro conjI)
    show "distinct (map fst (AList.delete k' ?st1))" using d1 by (simp add: distinct_delete)
    show "fst ` set (AList.delete k' ?st1) \<subseteq> fst ` set ?ps1" using sub1 sub2 [of k'] by blast
    show "\<forall>p \<in> set (AList.delete k' ?st1). last_put ?ps1 (fst p) = Some (timestamp (snd p))"
      using latest1 sub2 [of k'] by blast
  qed
  show ?thesis unfolding retain_def Let_def using b1 b2 by simp
qed

lemma run_puts_base:
  "cache_base ps (run_puts ps []) \<and> length (run_puts ps []) = min 1000 (card (fst ` set ps))"
proof (induction ps rule: rev_induct)
  case Nil
  show ?case by (simp add: cache_base_def)
next
  case (snoc p ps)
  obtain k mek tm where p: "p = (k, mek, tm)" by (cases p) auto
  from snoc.IH show ?case
    unfolding p run_puts_snoc using cache_base_retain retain_length by blast
qed

lemma sample_ids_distinct: "inj_on (\<lambda>i. replicate (Suc i) CHR ''m'') A"
  by (rule inj_onI) (metis length_replicate nat.inject)

lemma sample_last_put:
  assumes "last_put (map put_of [0..<n]) k = Some t"
  shows "\<exists>i < n. k = replicate (Suc i) CHR ''m'' \<and> t = 10 + i"
proof -
  from last_put_Some_in [OF assms] obtain m where "(k, m, t) \<in> set (map put_of [0..<n])" ..
  then obtain i where "i < n" "(k, m, t) = put_of i" by auto
  then show ?thesis by (auto simp: put_of_def)
qed

lemma update_absent: "k \<notin> fst ` set st \<Longrightarrow> AList.update k v st = st @ [(k, v)]"
  by (induction st) auto

lemma delete_absent: "k \<notin> fst ` set st \<Longrightarrow> AList.delete k (st @ [(k, v)]) = st"
  by (induction st) auto

lemma hd_sort_key_unique:
  fixes f :: "'a \<Rightarrow> nat"
  assumes "q \<in> set st" and "\<forall>p \<in> set st. p \<noteq> q \<longrightarrow> f q < f p"
  shows "hd (sort_key f st) = q"
proof (rule ccontr)
  assume ne: "hd (sort_key f st) \<noteq> q"
  have "st \<noteq> []" using assms(1) by auto
  then have "hd (sort_key f st) \<in> set st" by (rule hd_sort_key_in)
  with assms(2) ne have "f q < f (hd (sort_key f st))" by blast
  moreover have "f (hd (sort_key f st)) \<le> f q" using assms(1) by (rule hd_sort_key_least)
  ultimately show False by simp
qed

lemma run_puts_fill:
  "length ps \<le> 1000 \<Longrightarrow> distinct (map fst ps) \<Longrightarrow>
     run_puts ps [] = map (\<lambda>p. (fst p, stored (fst (snd p)) (snd (snd p)))) ps"
proof (induction ps rule: rev_induct)
  case Nil
  show ?case by simp
next
  case (snoc p ps)
  obtain k mek tm where p: "p = (k, mek, tm)" by (cases p) auto
  let ?st = "map (\<lambda>p. (fst p, stored (fst (snd p)) (snd (snd p)))) ps"
  from snoc have ih: "run_puts ps [] = ?st" by simp
  from snoc.prems have "k \<notin> fst ` set ps" by (simp add: p)
  then have "k \<notin> fst ` set ?st" by force
  then have u: "AList.update k (stored mek tm) ?st = ?st @ [(k, stored mek tm)]"
    by (rule update_absent)
  show ?case
    unfolding p run_puts_snoc ih using snoc.prems(1) by (simp add: retain_def Let_def u p)
qed

lemma thousand_keys: "fst ` set thousand = (\<lambda>i. replicate (Suc i) CHR ''m'') ` {0..<1000}"
  by (force simp: thousand_def put_of_def simp del: upt_Suc replicate_Suc)

lemma thousand_times: "p \<in> set thousand \<Longrightarrow> 10 \<le> timestamp (snd p)"
  by (auto simp: thousand_def put_of_def stored_def simp del: upt_Suc replicate_Suc)

lemma thousand_length: "length thousand = 1000"
  by (simp add: thousand_def)

lemma thousand_run: "run_puts (map put_of [0..<1000]) [] = thousand"
  unfolding thousand_def
  by (rule run_puts_fill)
    (simp_all add: comp_def put_of_def distinct_map sample_ids_distinct del: upt_Suc replicate_Suc)

lemma x_absent: "''x'' \<notin> fst ` set thousand"
  unfolding thousand_keys by auto

lemma m_present: "''m'' \<in> fst ` set thousand"
  unfolding thousand_keys by (rule image_eqI [of _ _ 0]) simp_all

lemma put_x_is_evicted: "retain ''x'' mek 5 thousand = thousand"
proof -
  let ?q = "(''x'', stored mek 5)"
  let ?st1 = "thousand @ [?q]"
  have u: "AList.update ''x'' (stored mek 5) thousand = ?st1"
    using x_absent by (rule update_absent)
  have "hd (sort_key (\<lambda>e. timestamp (snd e)) ?st1) = ?q"
  proof (rule hd_sort_key_unique)
    show "?q \<in> set ?st1" by simp
    show "\<forall>p \<in> set ?st1. p \<noteq> ?q \<longrightarrow> timestamp (snd ?q) < timestamp (snd p)"
      using thousand_times by (force simp: stored_def)
  qed
  then have o: "oldestKey ?st1 = ''x''" by (simp add: oldestKey_def)
  show ?thesis
    unfolding retain_def Let_def u o using delete_absent [OF x_absent] thousand_length by simp
qed

lemma reput_m_in_place:
  "retain ''m'' mek 3 thousand = AList.update ''m'' (stored mek 3) thousand"
  using m_present thousand_length by (simp add: retain_def Let_def length_update)

lemma backward_run:
  "run_puts backward_puts [] = AList.update ''m'' (stored (mek_with_id ''m'') 3) thousand"
proof -
  have e: "backward_puts = (map put_of [0..<1000] @ [(''x'', mek_with_id ''x'', 5)])
      @ [(''m'', mek_with_id ''m'', 3)]"
    by (simp add: backward_puts_def)
  show ?thesis
    unfolding e run_puts_snoc thousand_run put_x_is_evicted reput_m_in_place ..
qed

text \<open>
  C2, as stated, fails when the clock is set back. After 1000 puts, a new message put at
  the earlier time 5 is evicted at once, and the first message, put once more at the still
  earlier time 3, keeps its place: the cache then holds a message last put at time 3 and
  not the message put at time 5.
\<close>

theorem clock_set_back_counterexample:
  "last_put backward_puts ''x'' = Some 5 \<and>
   ''x'' \<notin> fst ` set (run_puts backward_puts []) \<and>
   map_of (run_puts backward_puts []) ''m'' = Some (stored (mek_with_id ''m'') 3)"
proof -
  have e: "backward_puts = (map put_of [0..<1000] @ [(''x'', mek_with_id ''x'', 5)])
      @ [(''m'', mek_with_id ''m'', 3)]"
    by (simp add: backward_puts_def)
  have 1: "last_put backward_puts ''x'' = Some 5"
    unfolding e last_put_snoc by simp
  have 2: "''x'' \<notin> fst ` set (run_puts backward_puts [])"
    unfolding backward_run using x_absent m_present by (auto simp: dom_update)
  have 3: "map_of (run_puts backward_puts []) ''m'' = Some (stored (mek_with_id ''m'') 3)"
    unfolding backward_run by (simp add: update_conv')
  from 1 2 3 show ?thesis by simp
qed

text \<open>
  C2, amended. For every sequence of puts, after each put (after the first \<open>n\<close> puts, for
  every \<open>n\<close>) the cache has at most 1000 entries, exactly \<open>min 1000\<close> of the number of
  distinct ids put, each with the time of the last put of its id; and the next put adds or
  replaces its entry and, when that makes more than 1000 entries, removes exactly one
  entry, one of smallest timestamp, and otherwise removes nothing. When moreover the
  clock readings of these puts never decrease, or no id is put twice, every id that was
  put and is not retained was last put no later than every retained entry: the cache
  holds the 1000 most recent ids by timestamp.
\<close>

theorem retention_cache_bounded:
  "(let qs = take n ps; st = run_puts qs []
    in length st \<le> 1000 \<and> length st = min 1000 (card (fst ` set qs)) \<and>
       distinct (map fst st) \<and> fst ` set st \<subseteq> fst ` set qs \<and>
       (\<forall>p \<in> set st. last_put qs (fst p) = Some (timestamp (snd p))) \<and>
       (\<forall>k mek tm. n < length ps \<and> ps ! n = (k, mek, tm) \<longrightarrow>
          (let st1 = AList.update k (stored mek tm) st;
               st' = run_puts (take (Suc n) ps) []
           in if length st1 \<le> 1000 then st' = st1
              else \<exists>q \<in> set st1.
                     (\<forall>p \<in> set st1. timestamp (snd q) \<le> timestamp (snd p)) \<and>
                     set st' = set st1 - {q} \<and> Suc (length st') = length st1)) \<and>
       (sorted (map (\<lambda>p. snd (snd p)) qs) \<or> distinct (map fst qs) \<longrightarrow>
          (\<forall>k t. last_put qs k = Some t \<and> k \<notin> fst ` set st \<longrightarrow>
             (\<forall>p \<in> set st. t \<le> timestamp (snd p)))))"
proof -
  let ?qs = "take n ps"
  let ?st = "run_puts ?qs []"
  from run_puts_base [of ?qs]
  have base: "cache_base ?qs ?st" and len: "length ?st = min 1000 (card (fst ` set ?qs))"
    by simp_all
  from base have d: "distinct (map fst ?st)" by (simp add: cache_base_def)
  have step: "let st1 = AList.update k (stored mek tm) ?st;
                  st' = run_puts (take (Suc n) ps) []
              in if length st1 \<le> 1000 then st' = st1
                 else \<exists>q \<in> set st1.
                        (\<forall>p \<in> set st1. timestamp (snd q) \<le> timestamp (snd p)) \<and>
                        set st' = set st1 - {q} \<and> Suc (length st') = length st1"
    if "n < length ps \<and> ps ! n = (k, mek, tm)" for k mek tm
  proof -
    from that have "take (Suc n) ps = ?qs @ [(k, mek, tm)]"
      by (simp add: take_Suc_conv_app_nth)
    then have "run_puts (take (Suc n) ps) [] = retain k mek tm ?st"
      by (simp add: run_puts_snoc)
    then show ?thesis using retain_evicts_once [OF d, of k mek tm] by simp
  qed
  have top: "\<forall>k t. last_put ?qs k = Some t \<and> k \<notin> fst ` set ?st \<longrightarrow>
      (\<forall>p \<in> set ?st. t \<le> timestamp (snd p))"
    if "sorted (map (\<lambda>p. snd (snd p)) ?qs) \<or> distinct (map fst ?qs)"
    using run_puts_inv [OF that] by (simp add: cache_inv_def)
  from base len step top show ?thesis
    unfolding Let_def cache_base_def by simp
qed

theorem retention_cache_bounded_witness:
  "sorted (map (\<lambda>p. snd (snd p)) sample_puts) \<and> length sample_puts = 1001 \<and>
   [] \<notin> fst ` set sample_puts \<and> length (run_puts sample_puts []) = 1000 \<and>
   ''m'' \<notin> fst ` set (run_puts sample_puts [])"
proof -
  let ?st = "run_puts sample_puts []"
  have m: "map (\<lambda>p. snd (snd p)) sample_puts = map (\<lambda>i. 10 + i) [0..<1001]"
    by (simp add: sample_puts_def put_of_def comp_def)
  have s: "sorted (map (\<lambda>p. snd (snd p)) sample_puts)"
    unfolding m by (simp add: sorted_map sorted_wrt_iff_nth_less del: upt_Suc)
  have k: "map fst sample_puts = map (\<lambda>i. replicate (Suc i) CHR ''m'') [0..<1001]"
    by (simp add: sample_puts_def put_of_def comp_def)
  have d: "distinct (map fst sample_puts)"
    unfolding k by (simp add: distinct_map sample_ids_distinct del: upt_Suc replicate_Suc)
  have l: "length sample_puts = 1001" by (simp add: sample_puts_def)
  have ids: "fst ` set sample_puts = (\<lambda>i. replicate (Suc i) CHR ''m'') ` {0..<1001}"
    using arg_cong [OF k, of set] by (simp del: upt_Suc replicate_Suc)
  have ne: "[] \<notin> fst ` set sample_puts" unfolding ids by auto
  have "card (set (map fst sample_puts)) = 1001" using distinct_card [OF d] l by simp
  then have c: "card (fst ` set sample_puts) = 1001" by simp
  have t: "take 1001 sample_puts = sample_puts" using l by simp
  note bnd = retention_cache_bounded [of 1001 sample_puts, unfolded Let_def t]
  from bnd c have len: "length ?st = 1000" by simp
  from bnd have dst: "distinct (map fst ?st)" and sub: "fst ` set ?st \<subseteq> fst ` set sample_puts"
    and latest: "\<forall>p \<in> set ?st. last_put sample_puts (fst p) = Some (timestamp (snd p))"
    by blast+
  from bnd s have top: "\<forall>k t. last_put sample_puts k = Some t \<and> k \<notin> fst ` set ?st \<longrightarrow>
      (\<forall>p \<in> set ?st. t \<le> timestamp (snd p))"
    by blast
  have out: "''m'' \<notin> fst ` set ?st"
  proof
    assume "''m'' \<in> fst ` set ?st"
    then obtain p where p: "p \<in> set ?st" "fst p = ''m''" by auto
    with latest have "last_put sample_puts ''m'' = Some (timestamp (snd p))" by auto
    from sample_last_put [OF this [unfolded sample_puts_def]]
    have tp: "timestamp (snd p) = 10" by auto
    have "card (fst ` set ?st) = 1000" using distinct_card [OF dst] len by simp
    with c sub have "fst ` set ?st \<noteq> fst ` set sample_puts" by auto
    with sub obtain k0 where k0: "k0 \<in> fst ` set sample_puts" "k0 \<notin> fst ` set ?st" by blast
    from last_put_dom [OF k0(1)] obtain t0 where t0: "last_put sample_puts k0 = Some t0" ..
    from sample_last_put [OF t0 [unfolded sample_puts_def]]
    obtain i where i: "k0 = replicate (Suc i) CHR ''m''" "t0 = 10 + i" by auto
    from top t0 k0(2) p(1) have "t0 \<le> timestamp (snd p)" by blast
    with tp i have "i = 0" by simp
    with i have "k0 = ''m''" by simp
    with k0(2) \<open>''m'' \<in> fst ` set ?st\<close> show False by simp
  qed
  from s l ne len out show ?thesis by simp
qed

section \<open>Delete recovery on an inbound deletion notice\<close>

lemmas sample_defs = sample_chat_def sample_cfg_def sample_owner_def deletion_notice_def
  sample_world_def all_ok_def owner_unreachable_def sample_mek_def stored_def

lemma features_skip_protocol:
  "message mek = Some msg \<Longrightarrow> protocolMessage msg \<noteq> None \<Longrightarrow>
     upsert_features cfg env M (mek # rest) w = w"
  by (simp add: upsert_features_def)

text \<open>The first handler retains the notice itself, and keeps \<open>M1\<close>.\<close>

lemma notice_is_retained: "messageStore (upsert_retain sample_cfg env [deletion_notice] sample_world) =
   [(''M1'', stored sample_mek 1000), (''D1'', stored deletion_notice (now env))]"
  by (simp add: upsert_retain_def sample_defs retain_def Let_def truthy_def orElse_def)

text \<open>
  C1. The third \<open>messages.upsert\<close> handler returns on any message that carries a
  \<open>protocolMessage\<close>, before it calls \<open>handleAntiDelete\<close>. For the deletion notice of the
  retained message \<open>Hello world\<close>, processing the inbound event sends nothing and the
  entry is still in the cache afterwards, whatever the engine answers.
\<close>

theorem deletion_notice_never_reaches_recovery:
  "calls (messages_upsert sample_cfg env M [deletion_notice] sample_world) = [] \<and>
   map_of (messageStore (messages_upsert sample_cfg env M [deletion_notice] sample_world)) ''M1''
     = Some (stored sample_mek 1000)"
  by (simp add: messages_upsert_def upsert_features_def upsert_retain_def sample_defs retain_def
      Let_def truthy_def orElse_def)

text \<open>Called directly on the notice, \<open>handleAntiDelete\<close> does recover the message.\<close>

lemma direct_call_recovers:
  "calls (handleAntiDelete sample_cfg env all_ok deletion_notice sample_world) =
     [SendMessage sample_chat (Relay (the (message sample_mek))),
      SendMessage sample_chat (Text (recoveryInfo ''Ann'' (format_time env 1000)))] \<and>
   map_of (messageStore (handleAntiDelete sample_cfg env all_ok deletion_notice sample_world)) ''M1''
     = None"
  by (simp add: handleAntiDelete_def recover_def sample_defs Let_def truthy_def orElse_def
      owner_configured_def perform_def extractContent_def mark_def forget_def flat_def
      resend_def fallback_def)


text \<open>
  In general: a failing report send ends the recovery after that one call, with the cache
  as it was; a failing resend, by contrast, is followed by the fallback text and the
  removal of the entry.
\<close>

lemma recover_report_failure:
  assumes "owner_configured cfg"
    and "\<forall>txt. respond M (length (calls w)) (SendMessage (BOT_OWNER cfg) (Text txt)) \<noteq> Ok"
  shows "messageStore (recover cfg env M dk k sm w) = messageStore w \<and>
         (\<exists>txt. calls (recover cfg env M dk k sm w)
                  = calls w @ [SendMessage (BOT_OWNER cfg) (Text txt)])"
  using assms by (simp add: recover_def Let_def perform_def)

lemma resend_failure_falls_back:
  assumes "message sm = Some m"
    and "respond M (length (calls w)) (SendMessage target (Relay (mark m))) \<noteq> Ok"
    and "respond M (Suc (length (calls w))) (SendMessage target (Text fb)) = Ok"
  shows "calls (resend M target mt info fb k sm w) =
           calls w @ [SendMessage target (Relay (mark m)), SendMessage target (Text fb)] \<and>
         map_of (messageStore (resend M target mt info fb k sm w)) k = None"
  using assms
  by (simp add: resend_def Let_def perform_def fallback_def forget_def delete_conv'
      split: Outcome.splits)


section \<open>Only the first message of a batch is looked at\<close>

lemma keys_retain: "fst ` set (retain k mek tm st) \<subseteq> insert k (fst ` set st)"
proof -
  have "fst ` set (AList.update k (stored mek tm) st) = insert k (fst ` set st)"
    by (simp add: dom_update)
  then show ?thesis
    unfolding retain_def Let_def using dom_delete_subset [of _ "AList.update k (stored mek tm) st"]
    by (auto split: if_splits)
qed

lemma perform_store [simp]: "messageStore (snd (perform M c w)) = messageStore w"
  by (simp add: perform_def)

lemma keys_forget: "fst ` set (messageStore (forget k w)) \<subseteq> fst ` set (messageStore w)"
  using dom_delete_subset [of k "messageStore w"] by (simp add: forget_def)

lemma keys_fallback:
  "fst ` set (messageStore (fallback M target txt k w)) \<subseteq> fst ` set (messageStore w)"
  using dom_delete_subset [of k "messageStore w"]
  by (simp add: fallback_def perform_def forget_def split: Outcome.splits)

lemma keys_resend:
  assumes "map_of (messageStore w) k = Some sm0"
  shows "fst ` set (messageStore (resend M target mt info fb k sm w)) \<subseteq> fst ` set (messageStore w)"
proof (cases "message sm")
  case None
  then show ?thesis using keys_forget [of k w] by (simp add: resend_def)
next
  case (Some m)
  define w2 where "w2 = w\<lparr>messageStore := AList.update k (sm\<lparr>message := Some (mark m)\<rparr>) (messageStore w)\<rparr>"
  have kin: "k \<in> fst ` set (messageStore w)"
    using assms by (metis domI dom_map_of_conv_image_fst)
  have k2: "fst ` set (messageStore w2) = fst ` set (messageStore w)"
    using kin by (auto simp: w2_def dom_update)
  let ?w3 = "snd (perform M (SendMessage target (Relay (mark m))) w2)"
  let ?w4 = "snd (perform M (SendMessage target (Text info)) ?w3)"
  have f3: "fst ` set (messageStore (forget k ?w3)) \<subseteq> fst ` set (messageStore w)"
    using keys_forget [of k ?w3] k2 by simp
  have f4: "fst ` set (messageStore (forget k ?w4)) \<subseteq> fst ` set (messageStore w)"
    using keys_forget [of k ?w4] k2 by simp
  have b3: "fst ` set (messageStore (fallback M target fb k ?w3)) \<subseteq> fst ` set (messageStore w)"
    using keys_fallback [of M target fb k ?w3] k2 by simp
  have b4: "fst ` set (messageStore (fallback M target fb k ?w4)) \<subseteq> fst ` set (messageStore w)"
    using keys_fallback [of M target fb k ?w4] k2 by simp
  have "resend M target mt info fb k sm w = forget k ?w3 \<or>
        resend M target mt info fb k sm w = forget k ?w4 \<or>
        resend M target mt info fb k sm w = fallback M target fb k ?w3 \<or>
        resend M target mt info fb k sm w = fallback M target fb k ?w4"
    by (simp add: resend_def Let_def Some w2_def split_beta split: Outcome.splits)
  then show ?thesis using f3 f4 b3 b4 by (elim disjE) (simp_all only:)
qed


lemma keys_recover:
  assumes "map_of (messageStore w) k = Some sm0"
  shows "fst ` set (messageStore (recover cfg env M dk k sm w)) \<subseteq> fst ` set (messageStore w)"
proof -
  have "fst ` set (messageStore (resend M target mt info fb k sm (snd (perform M c w))))
          \<subseteq> fst ` set (messageStore w)" for target mt info fb c
    using keys_resend [of "snd (perform M c w)" k sm0 M target mt info fb sm] assms by simp
  moreover have "fst ` set (messageStore (resend M target mt info fb k sm w))
          \<subseteq> fst ` set (messageStore w)" for target mt info fb
    using keys_resend [of w k sm0 M target mt info fb sm] assms by simp
  ultimately show ?thesis
    unfolding recover_def Let_def by (simp split: if_splits)
qed


lemma keys_handleAntiDelete:
  "fst ` set (messageStore (handleAntiDelete cfg env M mek w)) \<subseteq> fst ` set (messageStore w)"
  unfolding handleAntiDelete_def
  using keys_recover by (auto split: option.splits)

lemma store_handleAutoViewStatus [simp]:
  "messageStore (handleAutoViewStatus cfg M mek w) = messageStore w"
  by (simp add: handleAutoViewStatus_def)

lemma store_handleAutoLikeStatus [simp]:
  "messageStore (handleAutoLikeStatus cfg env M mek w) = messageStore w"
  by (simp add: handleAutoLikeStatus_def Let_def)


lemma store_upsert_features:
  "messageStore (upsert_features cfg env M (mek # rest) w) = messageStore w \<or>
   messageStore (upsert_features cfg env M (mek # rest) w)
     = messageStore (handleAntiDelete cfg env M mek w)"
  by (simp add: upsert_features_def Let_def split_beta split: option.splits Outcome.splits)

lemma keys_upsert_features:
  "fst ` set (messageStore (upsert_features cfg env M batch w)) \<subseteq> fst ` set (messageStore w)"
proof (cases batch)
  case Nil
  then show ?thesis by (simp add: upsert_features_def)
next
  case (Cons mek rest)
  show ?thesis
    unfolding Cons
    using store_upsert_features [of cfg env M mek rest w] keys_handleAntiDelete [of cfg env M mek w]
    by (elim disjE) (simp_all only: subset_refl)
qed

lemma keys_upsert_retain:
  "fst ` set (messageStore (upsert_retain cfg env (mek # rest) w))
     \<subseteq> insert (orElse (keyId (key mek)) []) (fst ` set (messageStore w))"
  using keys_retain [of "orElse (keyId (key mek)) []" mek "now env" "messageStore w"]
  by (auto simp: upsert_retain_def)

text \<open>
  C9. The retention handler and the feature handler read \<open>chatUpdate.messages[0]\<close> only:
  on a batch they do what they do on its first message alone, and afterwards the cache
  holds no id other than those it held before and the id of the first message.
\<close>

theorem only_first_message_of_batch:
  "upsert_retain cfg env (mek # rest) w = upsert_retain cfg env [mek] w \<and>
   upsert_features cfg env M (mek # rest) w = upsert_features cfg env M [mek] w \<and>
   messages_upsert cfg env M (mek # rest) w = messages_upsert cfg env M [mek] w \<and>
   fst ` set (messageStore (messages_upsert cfg env M (mek # rest) w))
     \<subseteq> insert (orElse (keyId (key mek)) []) (fst ` set (messageStore w))"
proof -
  have 1: "upsert_retain cfg env (mek # rest) w = upsert_retain cfg env [mek] w"
    by (simp add: upsert_retain_def)
  have 2: "upsert_features cfg env M (mek # rest) w' = upsert_features cfg env M [mek] w'" for w'
    by (simp add: upsert_features_def)
  have 3: "fst ` set (messageStore (messages_upsert cfg env M (mek # rest) w))
     \<subseteq> insert (orElse (keyId (key mek)) []) (fst ` set (messageStore w))"
    unfolding messages_upsert_def
    using keys_upsert_features [of cfg env M "mek # rest" "upsert_retain cfg env (mek # rest) w"]
      keys_upsert_retain [of cfg env mek rest w] by blast
  from 1 2 3 show ?thesis by (simp add: messages_upsert_def)
qed



theorem only_first_message_of_batch_witness:
  "messages_upsert sample_cfg sample_env all_ok [sample_mek, deletion_notice] (world (boot None))
     = messages_upsert sample_cfg sample_env all_ok [sample_mek] (world (boot None)) \<and>
   map fst (messageStore (messages_upsert sample_cfg sample_env all_ok
      [sample_mek, deletion_notice] (world (boot None)))) = [''M1'']"
proof -
  have "map fst (messageStore (messages_upsert sample_cfg sample_env all_ok [sample_mek]
      (world (boot None)))) = [''M1'']"
    by (simp add: messages_upsert_def upsert_features_def upsert_retain_def sample_defs retain_def
        Let_def truthy_def orElse_def boot_def handleAntiDelete_def handleAutoViewStatus_def
        handleAutoLikeStatus_def)
  with only_first_message_of_batch [of sample_cfg sample_env sample_mek "[deletion_notice]"
      "world (boot None)" all_ok]
  show ?thesis by simp
qed

section \<open>The membership reconciler\<close>

lemma join_fst:
  "fst (joinGroupByInviteCode M (inviteCode g) (name g) w) = reply M (length (calls w)) g"
  by (simp add: joinGroupByInviteCode_def Let_def perform_def reply_def accept_call_def)

lemma join_snd:
  "snd (joinGroupByInviteCode M (inviteCode g) (name g) w) = w\<lparr>calls := calls w @ [accept_call g]\<rparr>"
  by (simp add: joinGroupByInviteCode_def Let_def perform_def accept_call_def)

lemma walk_snd: "snd (walk M gs acc w) = w\<lparr>calls := calls w @ map accept_call gs\<rparr>"
  by (induction gs arbitrary: acc w) (simp_all add: Let_def join_snd)

lemma tally_results:
  "results (tally g r acc) = results acc @
     [case r of Inr x \<Rightarrow> \<lparr>success = success x, alreadyInGroup = alreadyInGroup x,
                           error = error x, groupName = name g\<rparr>
      | Inl e \<Rightarrow> \<lparr>success = False, alreadyInGroup = False, error = Some e,
                   groupName = name g\<rparr>]"
  by (simp add: tally_def split: sum.splits)

lemma tally_total: "total (tally g r acc) = total acc"
  by (simp add: tally_def split: sum.splits)

lemma tally_consistent: "consistent acc \<Longrightarrow> consistent (tally g r acc)"
  by (simp add: tally_def consistent_def split: sum.splits)

lemma walk_results:
  "results (fst (walk M gs acc w)) = results acc @ replies M (length (calls w)) gs"
  by (induction gs arbitrary: acc w)
    (simp_all add: Let_def join_fst join_snd tally_results entry_def)

lemma walk_total: "total (fst (walk M gs acc w)) = total acc"
  by (induction gs arbitrary: acc w) (simp_all add: Let_def tally_total)

lemma walk_consistent: "consistent acc \<Longrightarrow> consistent (fst (walk M gs acc w))"
  by (induction gs arbitrary: acc w) (simp_all add: Let_def tally_consistent)

lemma entry_unclassified:
  assumes "answer = Rejects v \<or> answer = Throws v" and "unclassified v"
  shows "entry g (join_result (name g) answer) =
           \<lparr>success = False, alreadyInGroup = False, error = Some (other_text v),
            groupName = name g\<rparr>"
  using assms
  by (auto simp: entry_def join_result_def classify_def unclassified_def other_text_def
      split: Thrown.splits option.splits)

lemma join_throws:
  assumes "answer = Rejects v \<or> answer = Throws v" and "throws_at_join v"
  shows "join_result gname answer = Inl (other_text v)"
  using assms
  by (auto simp: join_result_def classify_def throws_at_join_def other_text_def)

lemma entry_already:
  assumes "answer = Rejects (ThrownError (Some msg)) \<or> answer = Throws (ThrownError (Some msg))"
    and "str_includes msg ''already''"
  shows "entry g (join_result (name g) answer) =
           \<lparr>success = True, alreadyInGroup = True, error = None, groupName = name g\<rparr>"
  using assms by (auto simp: entry_def join_result_def classify_def)

lemma summary_returned:
  assumes "\<forall>c e. respond M (length (calls w) + length (MANDATORY_GROUPS cfg)) c \<noteq> Throws e"
  shows "fst (handleAutoJoinGroups cfg env M w) =
           Inr (fst (walk M (MANDATORY_GROUPS cfg)
                  \<lparr>total = length (MANDATORY_GROUPS cfg), joined = 0, alreadyIn = 0, failed = 0,
                   results = []\<rparr> (w\<lparr>console := console w @ [AutoJoinProcessing]\<rparr>)))"
  using assms
  by (simp add: handleAutoJoinGroups_def Let_def walk_snd perform_def split: Outcome.splits)

lemma handleAutoJoinGroups_calls:
  "take (length (MANDATORY_GROUPS cfg)) (drop (length (calls w))
      (calls (snd (handleAutoJoinGroups cfg env M w)))) = map accept_call (MANDATORY_GROUPS cfg)"
  by (simp add: handleAutoJoinGroups_def Let_def walk_snd perform_def rethrow_def
      split: Outcome.splits Thrown.splits)

lemma five_cfg_groups: "MANDATORY_GROUPS five_cfg = five_groups"
  by (simp add: MANDATORY_GROUPS_def five_cfg_def sample_cfg_def five_groups_def invite_url_def
      split1_def digits.simps)

lemma length_replies [simp]: "length (replies M n gs) = length gs"
  by (induction gs arbitrary: n) simp_all

lemma nth_replies:
  "i < length gs \<Longrightarrow> replies M n gs ! i = entry (gs ! i) (reply M (n + i) (gs ! i))"
proof (induction gs arbitrary: n i)
  case Nil
  then show ?case by simp
next
  case (Cons g gs)
  then show ?case by (cases i) simp_all
qed

lemma consistent_start:
  "consistent \<lparr>total = t, joined = 0, alreadyIn = 0, failed = 0, results = []\<rparr>"
  by (simp add: consistent_def)

lemmas run_defs = handleAutoJoinGroups_def MANDATORY_GROUPS_def joinGroupByInviteCode_def
  join_result_def classify_def tally_def perform_def invite_code_of_def invite_url_def
  owner_configured_def rethrow_def Let_def

text \<open>
  A failure whose message contains \<open>already\<close> is an already-member outcome: with the third
  call rejected with \<open>already-in-group\<close>, the summary has no failure.
\<close>

lemma already_message_counts_as_member:
  "fst (handleAutoJoinGroups five_cfg sample_env
      (third_fails (ThrownError (Some ''already-in-group''))) sample_world)
     = Inr \<lparr>total = 5, joined = 4, alreadyIn = 1, failed = 0,
            results =
              [\<lparr>success = True, alreadyInGroup = False, error = None, groupName = ''Group 1''\<rparr>,
               \<lparr>success = True, alreadyInGroup = False, error = None, groupName = ''Group 2''\<rparr>,
               \<lparr>success = True, alreadyInGroup = True, error = None, groupName = ''Group 3''\<rparr>,
               \<lparr>success = True, alreadyInGroup = False, error = None,
                 groupName = ''Config Group 1''\<rparr>,
               \<lparr>success = True, alreadyInGroup = False, error = None,
                 groupName = ''Config Group 2''\<rparr>]\<rparr>"
  by (simp add: run_defs five_cfg_def sample_cfg_def sample_world_def third_fails_def
      split1_def digits.simps)

text \<open>
  C7. Let there be five targets and let the join of the third throw: its call fails with a
  value whose message cannot be read (\<open>undefined\<close>, \<open>null\<close>, or an error without message), so
  that \<open>joinGroupByInviteCode\<close> raises a TypeError into the per-target \<open>catch\<close>; or, more
  generally, let the call fail with a message that contains none of \<open>already\<close>, \<open>invite\<close>,
  \<open>invalid\<close>, \<open>rate\<close>, \<open>limit\<close>. Let the summary send not throw before returning its promise.
  Then the run returns a summary of five entries whose third entry is a failure carrying
  that error's text, the failure count is at least one, the three counters count the
  entries that failed, that were already in, and that joined; the five calls are made in
  order, so targets four and five are attempted; and every target whose call fails with a
  message containing \<open>already\<close> is entered as a success that was already in.
\<close>

theorem reconcile_five_targets:
  assumes groups: "MANDATORY_GROUPS cfg = [g1, g2, g3, g4, g5]"
    and third: "respond M (length (calls w) + 2) (accept_call g3) = Rejects v \<or>
                respond M (length (calls w) + 2) (accept_call g3) = Throws v"
    and other: "throws_at_join v \<or> unclassified v"
    and summary: "\<forall>c v'. respond M (length (calls w) + 5) c \<noteq> Throws v'"
  shows "\<exists>s. fst (handleAutoJoinGroups cfg env M w) = Inr s \<and>
           total s = 5 \<and> length (results s) = 5 \<and>
           results s ! 2 = \<lparr>success = False, alreadyInGroup = False,
              error = Some (other_text v), groupName = name g3\<rparr> \<and>
           (throws_at_join v \<longrightarrow>
              fst (joinGroupByInviteCode M (inviteCode g3) (name g3)
                    (w\<lparr>calls := calls w @ [accept_call g1, accept_call g2]\<rparr>))
                = Inl (other_text v)) \<and>
           1 \<le> failed s \<and>
           failed s = length (filter (\<lambda>r. \<not> success r) (results s)) \<and>
           alreadyIn s = length (filter (\<lambda>r. success r \<and> alreadyInGroup r) (results s)) \<and>
           joined s = length (filter (\<lambda>r. success r \<and> \<not> alreadyInGroup r) (results s)) \<and>
           take 5 (drop (length (calls w)) (calls (snd (handleAutoJoinGroups cfg env M w))))
             = map accept_call [g1, g2, g3, g4, g5] \<and>
           (\<forall>i msg. i < 5 \<and> str_includes msg ''already'' \<and>
              (respond M (length (calls w) + i) (accept_call ([g1, g2, g3, g4, g5] ! i))
                 = Rejects (ThrownError (Some msg)) \<or>
               respond M (length (calls w) + i) (accept_call ([g1, g2, g3, g4, g5] ! i))
                 = Throws (ThrownError (Some msg)))
              \<longrightarrow> success (results s ! i) \<and> alreadyInGroup (results s ! i))"
proof -
  define gs where "gs = MANDATORY_GROUPS cfg"
  define s where "s = fst (walk M gs
      \<lparr>total = length gs, joined = 0, alreadyIn = 0, failed = 0, results = []\<rparr>
      (w\<lparr>console := console w @ [AutoJoinProcessing]\<rparr>))"
  have gs: "gs = [g1, g2, g3, g4, g5]" by (simp add: gs_def groups)
  have l5: "length gs = 5" and g3: "gs ! 2 = g3" by (simp_all add: gs)
  have u: "unclassified v"
    using other by (auto simp: throws_at_join_def unclassified_def)
  have ret: "fst (handleAutoJoinGroups cfg env M w) = Inr s"
    unfolding s_def gs_def
    by (rule summary_returned) (use summary l5 in \<open>simp add: gs_def\<close>)
  have res: "results s = replies M (length (calls w)) gs"
    unfolding s_def by (simp add: walk_results)
  have nth: "results s ! i = entry (gs ! i) (reply M (length (calls w) + i) (gs ! i))"
    if "i < 5" for i
    unfolding res using that l5 by (intro nth_replies) simp
  have tot: "total s = 5" unfolding s_def by (simp add: walk_total l5)
  have len: "length (results s) = 5" unfolding res by (simp add: l5)
  have cons: "consistent s" unfolding s_def by (intro walk_consistent consistent_start)
  have r3: "results s ! 2 = \<lparr>success = False, alreadyInGroup = False,
              error = Some (other_text v), groupName = name g3\<rparr>"
    using nth [of 2] entry_unclassified [OF third u, of g3] by (simp add: reply_def g3)
  have thr: "fst (joinGroupByInviteCode M (inviteCode g3) (name g3)
                    (w\<lparr>calls := calls w @ [accept_call g1, accept_call g2]\<rparr>))
                = Inl (other_text v)" if "throws_at_join v"
    using join_throws [OF third that, of "name g3"] by (simp add: join_fst reply_def)
  have "results s ! 2 \<in> set (results s)" by (rule nth_mem) (simp add: len)
  moreover have "\<not> success (results s ! 2)" by (simp add: r3)
  ultimately have "filter (\<lambda>r. \<not> success r) (results s) \<noteq> []"
    unfolding filter_empty_conv by blast
  then have one: "1 \<le> failed s" using cons by (simp add: consistent_def Suc_le_eq)
  have cs: "take 5 (drop (length (calls w)) (calls (snd (handleAutoJoinGroups cfg env M w))))
             = map accept_call gs"
    using handleAutoJoinGroups_calls [of cfg w env M] by (simp add: gs_def l5 [unfolded gs_def])
  have already: "success (results s ! i) \<and> alreadyInGroup (results s ! i)"
    if "i < 5 \<and> str_includes msg ''already'' \<and>
        (respond M (length (calls w) + i) (accept_call (gs ! i)) = Rejects (ThrownError (Some msg)) \<or>
         respond M (length (calls w) + i) (accept_call (gs ! i)) = Throws (ThrownError (Some msg)))"
    for i msg
  proof -
    from that have i: "i < 5" and m: "str_includes msg ''already''"
      and a: "respond M (length (calls w) + i) (accept_call (gs ! i))
                = Rejects (ThrownError (Some msg)) \<or>
              respond M (length (calls w) + i) (accept_call (gs ! i))
                = Throws (ThrownError (Some msg))"
      by blast+
    show ?thesis
      unfolding nth [OF i] reply_def entry_already [OF a m] by simp
  qed
  from ret tot len r3 thr one cons cs already show ?thesis
    unfolding consistent_def gs by blast
qed

theorem reconcile_five_targets_witness:
  "MANDATORY_GROUPS five_cfg = five_groups \<and> throws_at_join ThrownUndefined \<and>
   (\<exists>s. fst (handleAutoJoinGroups five_cfg sample_env (third_fails ThrownUndefined) sample_world)
          = Inr s \<and> 1 \<le> failed s \<and> length (results s) = 5 \<and>
          error (results s ! 2) = Some (TypeError_message ''undefined''))"
proof -
  have u: "throws_at_join ThrownUndefined \<or> unclassified ThrownUndefined"
    by (simp add: throws_at_join_def)
  have c: "calls sample_world = []" by (simp add: sample_world_def)
  have t: "respond (third_fails ThrownUndefined) (length (calls sample_world) + 2) call
      = Rejects ThrownUndefined \<or>
    respond (third_fails ThrownUndefined) (length (calls sample_world) + 2) call
      = Throws ThrownUndefined" for call
    by (simp add: c third_fails_def)
  have a: "\<forall>call v'. respond (third_fails ThrownUndefined) (length (calls sample_world) + 5) call
      \<noteq> Throws v'"
    by (simp add: c third_fails_def)
  obtain s where
    "fst (handleAutoJoinGroups five_cfg sample_env (third_fails ThrownUndefined) sample_world)
       = Inr s" "1 \<le> failed s" "length (results s) = 5"
    "results s ! 2 = \<lparr>success = False, alreadyInGroup = False,
        error = Some (other_text ThrownUndefined), groupName = ''Group 3''\<rparr>"
    using reconcile_five_targets [OF five_cfg_groups [unfolded five_groups_def] t u a,
        of sample_env]
    by auto
  moreover have "other_text ThrownUndefined = TypeError_message ''undefined''"
    by (simp add: other_text_def)
  ultimately show ?thesis using five_cfg_groups by (auto simp: throws_at_join_def)
qed

section \<open>An error of the reconciler at its callers\<close>







section \<open>Connection closure\<close>

lemma lifecycle_say [simp]: "lifecycle (say l p) = lifecycle p"
  by (simp add: lifecycle_def say_def)

lemma lifecycle_frame [simp]:
  "lifecycle (p\<lparr>world := w\<rparr>) = lifecycle p"
  "lifecycle (p\<lparr>unhandled := u\<rparr>) = lifecycle p"
  "lifecycle (p\<lparr>initialConnection := b\<rparr>) = lifecycle p"
  by (simp_all add: lifecycle_def)

lemma say_frame [simp]:
  "sockets (say l p) = sockets p" "timers (say l p) = timers p" "exited (say l p) = exited p"
  "credsFile (say l p) = credsFile p" "useQR (say l p) = useQR p"
  by (simp_all add: say_def)

lemma start_frame [simp]:
  "credsFile (start env p) = credsFile p" "useQR (start env p) = useQR p"
  by (simp_all add: start_def)

lemma lifecycle_timer_callback [simp]: "lifecycle (timer_callback cfg env M p) = lifecycle p"
  by (cases "handleAutoJoinGroups cfg env M (world p)")
    (simp add: timer_callback_def split: sum.splits)

lemma lifecycle_on_open [simp]: "lifecycle (on_open cfg env M p) = lifecycle p"
  by (simp add: on_open_def split: prod.splits sum.splits option.splits)

lemma lifecycle_fold_timers:
  "lifecycle (fold (\<lambda>sock. timer_callback cfg env (engine sock)) ts p) = lifecycle p"
  by (induction ts arbitrary: p) simp_all

lemma lifecycle_tick [simp]: "lifecycle (tick cfg env engine p) = lifecycle p"
  by (simp add: tick_def lifecycle_fold_timers)

lemma close_logged_out:
  assumes "connection update = Some ''close''" and "lastDisconnect update = Some ld"
    and "closeStatus ld = Some loggedOut"
  shows "on_connection_update cfg env M update p = say LoggedOut p"
  using assms by (simp add: on_connection_update_def)

lemma close_recoverable:
  assumes "connection update = Some ''close''" and "lastDisconnect update = Some ld"
    and "closeStatus ld \<noteq> Some loggedOut"
  shows "on_connection_update cfg env M update p = start env (say Reconnecting p)"
  using assms by (simp add: on_connection_update_def)

lemma step_quiet:
  assumes "\<not> recoverable_close (snd ev)"
  shows "lifecycle (step cfg engine ev p) = lifecycle p"
proof (cases "snd ev")
  case (ConnectionUpdate sock update)
  show ?thesis
  proof (cases "connection update = Some ''close''")
    case True
    with assms ConnectionUpdate show ?thesis
      by (cases "lastDisconnect update")
        (simp_all add: step_def on_connection_update_def recoverable_close_def)
  next
    case False
    with ConnectionUpdate show ?thesis
      by (simp add: step_def on_connection_update_def)
  qed
next
  case (MessagesUpsert sock batch)
  then show ?thesis by (simp add: step_def)
next
  case TimersFire
  then show ?thesis by (simp add: step_def)
qed

lemma run_quiet:
  assumes "\<not> list_ex (\<lambda>ev. recoverable_close (snd ev)) evs"
  shows "lifecycle (run cfg engine evs p) = lifecycle p"
  using assms unfolding run_def
  by (induction evs arbitrary: p) (simp_all add: step_quiet)

text \<open>
  C3. On a close event that carries its cause: when the cause is logged-out, the handler
  only logs, makes no socket, and no later sequence of events without a recoverable close
  (timers, messages, opens, further logged-out closes) makes one; for every other cause
  the handler calls \<open>start\<close>, which makes a new socket when the engine's set-up succeeds.
\<close>

theorem logged_out_close_is_terminal:
  assumes "connection update = Some ''close''" and "lastDisconnect update = Some ld"
  shows "(closeStatus ld = Some loggedOut \<longrightarrow>
            on_connection_update cfg env M update p = say LoggedOut p \<and>
            sockets (on_connection_update cfg env M update p) = sockets p \<and>
            (\<forall>evs. \<not> list_ex (\<lambda>ev. recoverable_close (snd ev)) evs \<longrightarrow>
               sockets (run cfg engine evs (on_connection_update cfg env M update p)) = sockets p)) \<and>
         (closeStatus ld \<noteq> Some loggedOut \<longrightarrow>
            on_connection_update cfg env M update p = start env (say Reconnecting p) \<and>
            (engine_ok env \<longrightarrow>
               sockets (on_connection_update cfg env M update p)
                 = sockets p @ [\<lparr>printQRInTerminal = useQR p, auth = credsFile p\<rparr>]))"
proof -
  have quiet: "sockets (run cfg engine evs (say LoggedOut p)) = sockets p"
    if "\<not> list_ex (\<lambda>ev. recoverable_close (snd ev)) evs" for evs
    using run_quiet [OF that, of cfg engine "say LoggedOut p"] by (simp add: lifecycle_def)
  show ?thesis
    using assms quiet
    by (simp add: close_logged_out close_recoverable start_def)
qed

theorem logged_out_close_is_terminal_witness:
  "connection (close_update (Some 401)) = Some ''close'' \<and>
   on_connection_update sample_cfg sample_env all_ok (close_update (Some 401)) (boot None)
     = say LoggedOut (boot None) \<and>
   sockets (run sample_cfg (\<lambda>sock. all_ok) [(sample_env, TimersFire)]
      (on_connection_update sample_cfg sample_env all_ok (close_update (Some 401)) (boot None))) = [] \<and>
   sockets (on_connection_update sample_cfg sample_env all_ok (close_update (Some 428)) (boot None))
     = [\<lparr>printQRInTerminal = False, auth = None\<rparr>]"
proof -
  have c: "connection (close_update code) = Some ''close''" for code
    by (simp add: close_update_def)
  have l: "lastDisconnect (close_update code) =
      Some \<lparr>disconnectError = Some \<lparr>errorOutput = Some \<lparr>statusCode = code\<rparr>\<rparr>\<rparr>" for code
    by (simp add: close_update_def)
  have q: "\<not> list_ex (\<lambda>ev. recoverable_close (snd ev)) [(sample_env, TimersFire)]"
    by (simp add: recoverable_close_def)
  have e: "engine_ok sample_env" by (simp add: sample_env_def)
  have out: "closeStatus \<lparr>disconnectError = Some \<lparr>errorOutput = Some \<lparr>statusCode = Some 401\<rparr>\<rparr>\<rparr>
      = Some loggedOut"
    by (simp add: closeStatus_def loggedOut_def)
  have other: "closeStatus \<lparr>disconnectError = Some \<lparr>errorOutput = Some \<lparr>statusCode = Some 428\<rparr>\<rparr>\<rparr>
      \<noteq> Some loggedOut"
    by (simp add: closeStatus_def loggedOut_def)
  note t1 = logged_out_close_is_terminal [OF c l, of "Some 401" sample_cfg sample_env all_ok
      "boot None" "\<lambda>sock. all_ok"]
  note t2 = logged_out_close_is_terminal [OF c l, of "Some 428" sample_cfg sample_env all_ok
      "boot None" "\<lambda>sock. all_ok"]
  from t1 out have a: "on_connection_update sample_cfg sample_env all_ok (close_update (Some 401))
      (boot None) = say LoggedOut (boot None)"
    and b: "\<forall>evs. \<not> list_ex (\<lambda>ev. recoverable_close (snd ev)) evs \<longrightarrow>
      sockets (run sample_cfg (\<lambda>sock. all_ok) evs
        (on_connection_update sample_cfg sample_env all_ok (close_update (Some 401)) (boot None)))
      = sockets (boot None)"
    by blast+
  from b q have b': "sockets (run sample_cfg (\<lambda>sock. all_ok) [(sample_env, TimersFire)]
      (on_connection_update sample_cfg sample_env all_ok (close_update (Some 401)) (boot None)))
      = sockets (boot None)"
    by blast
  from t2 other e have d: "sockets (on_connection_update sample_cfg sample_env all_ok
      (close_update (Some 428)) (boot None))
      = sockets (boot None) @ [\<lparr>printQRInTerminal = useQR (boot None), auth = credsFile (boot None)\<rparr>]"
    by blast
  show ?thesis using a b' d c by (simp add: boot_def)
qed

text \<open>
  C5, as stated, fails: the restart calls \<open>start\<close>, not \<open>init\<close>. After a first bootstrap in
  which the legacy archive could not be downloaded, a recoverable close at a time when the
  download would succeed leaves the credential file absent, where \<open>init\<close> would write it.
\<close>

theorem restart_skips_bootstrap_counterexample:
  "credsFile (on_connection_update legacy_cfg archive_env all_ok (close_update (Some 428))
      (init legacy_cfg sample_env (boot None))) = None \<and>
   credsFile (init legacy_cfg archive_env
      (say Reconnecting (init legacy_cfg sample_env (boot None)))) = Some ''CREDS''"
  by (simp add: on_connection_update_def close_update_def closeStatus_def loggedOut_def init_def
      downloadLegacySession_def legacy_cfg_def archive_env_def sample_env_def sample_cfg_def
      boot_def truthy_def orElse_def split1_def Let_def)

text \<open>
  C5, amended. On a close with a recoverable cause the handler runs \<open>start\<close> only: it
  writes neither the credential file nor \<open>useQR\<close>, so no step of the bootstrapper beyond the
  first is run again; when the credential file exists, this is what \<open>init\<close> does as well.
\<close>

theorem restart_runs_start_only:
  assumes "connection update = Some ''close''" and "lastDisconnect update = Some ld"
    and "closeStatus ld \<noteq> Some loggedOut"
  shows "on_connection_update cfg env M update p = start env (say Reconnecting p) \<and>
         credsFile (on_connection_update cfg env M update p) = credsFile p \<and>
         useQR (on_connection_update cfg env M update p) = useQR p \<and>
         (credsFile p \<noteq> None \<longrightarrow>
            on_connection_update cfg env M update p = init cfg env (say Reconnecting p))"
  using assms by (simp add: close_recoverable init_def)

theorem restart_runs_start_only_witness:
  "connection (close_update (Some 428)) = Some ''close'' \<and>
   on_connection_update legacy_cfg archive_env all_ok (close_update (Some 428)) (boot (Some ''CREDS''))
     = init legacy_cfg archive_env (say Reconnecting (boot (Some ''CREDS''))) \<and>
   credsFile (on_connection_update legacy_cfg archive_env all_ok (close_update (Some 428)) (boot None))
     = None"
proof -
  have c: "connection (close_update code) = Some ''close''" for code
    by (simp add: close_update_def)
  have l: "lastDisconnect (close_update code) =
      Some \<lparr>disconnectError = Some \<lparr>errorOutput = Some \<lparr>statusCode = code\<rparr>\<rparr>\<rparr>" for code
    by (simp add: close_update_def)
  have r: "closeStatus \<lparr>disconnectError = Some \<lparr>errorOutput = Some \<lparr>statusCode = Some 428\<rparr>\<rparr>\<rparr>
      \<noteq> Some loggedOut"
    by (simp add: closeStatus_def loggedOut_def)
  note t1 = restart_runs_start_only [OF c l r, of legacy_cfg archive_env all_ok
      "boot (Some ''CREDS'')"]
  note t2 = restart_runs_start_only [OF c l r, of legacy_cfg archive_env all_ok "boot None"]
  have f: "credsFile (boot (Some ''CREDS'')) \<noteq> None" and n: "credsFile (boot None) = None"
    by (simp_all add: boot_def)
  from t1 f have a: "on_connection_update legacy_cfg archive_env all_ok (close_update (Some 428))
      (boot (Some ''CREDS'')) = init legacy_cfg archive_env (say Reconnecting (boot (Some ''CREDS'')))"
    by blast
  from t2 n have b: "credsFile (on_connection_update legacy_cfg archive_env all_ok
      (close_update (Some 428)) (boot None)) = None"
    by simp
  from a b c show ?thesis by blast
qed

section \<open>The compressed inline credential\<close>

text \<open>
  C6. Let \<open>gzip\<close> and \<open>base64\<close> be encoders that Node's decoders invert at \<open>s\<close>: the base64
  decoder returns the gzip stream, the stream starts with the bytes \<open>1F 8B\<close>, and
  \<open>gunzip\<close> followed by \<open>toString('utf-8')\<close> returns \<open>s\<close>. With no credential file, a
  session identifier \<open>Buddy~\<close> followed by \<open>base64 (gzip s)\<close> and a writable disk,
  \<open>loadGiftedSession\<close> returns \<open>true\<close> having written exactly \<open>s\<close>, and \<open>init\<close> ends with \<open>s\<close>
  on disk, without asking for a QR code.
\<close>

theorem gifted_session_written:
  fixes base64 gzip :: "string \<Rightarrow> string"
  assumes nofile: "credsFile p = None"
    and sid: "SESSION_ID cfg = Some (''Buddy~'' @ base64 (gzip s))"
    and b64: "base64_decode env (base64 (gzip s)) = gzip s"
    and magic: "take 2 (gzip s) = [CHR 0x1F, CHR 0x8B]"
    and gz: "map_option (utf8_toString env) (gunzip env (gzip s)) = Some s"
    and disk: "writeFile_ok env"
  shows "loadGiftedSession cfg env p = (True, p\<lparr>credsFile := Some s\<rparr>) \<and>
         credsFile (init cfg env p) = Some s \<and> useQR (init cfg env p) = useQR p"
proof -
  from magic obtain rest where g: "gzip s = CHR 0x1F # CHR 0x8B # rest"
    by (cases "gzip s"; cases "tl (gzip s)") auto
  from gz obtain raw where raw: "gunzip env (gzip s) = Some raw" "utf8_toString env raw = s"
    by auto
  have t: "truthy (SESSION_ID cfg)" and o: "orElse (SESSION_ID cfg) [] = ''Buddy~'' @ base64 (gzip s)"
    by (simp_all add: sid truthy_def orElse_def)
  have st: "startsWith (''Buddy~'' @ x) ''Buddy~''" for x by simp
  have b64': "base64_decode env (base64 (gzip s)) = CHR 0x1F # CHR 0x8B # rest"
    using b64 g by simp
  have raw': "gunzip env (CHR 0x1F # CHR 0x8B # rest) = Some raw"
    using raw g by simp
  have load: "loadGiftedSession cfg env p = (True, p\<lparr>credsFile := Some s\<rparr>)"
    using raw(2) disk by (simp add: loadGiftedSession_def t o st b64' raw' Let_def)
  show ?thesis
    using load nofile by (simp add: init_def t o st)
qed

theorem gifted_session_written_witness:
  "credsFile (boot None) = None \<and>
   SESSION_ID gifted_cfg = Some (''Buddy~'' @ session_b64) \<and>
   base64_decode gifted_env session_b64 = session_gz \<and>
   map_option (utf8_toString gifted_env) (gunzip gifted_env session_gz) = Some ''SESSIONDATA'' \<and>
   credsFile (init gifted_cfg gifted_env (boot None)) = Some ''SESSIONDATA''"
proof -
  have 1: "credsFile (boot None) = None" by (simp add: boot_def)
  have 2: "SESSION_ID gifted_cfg = Some (''Buddy~'' @ (\<lambda>b. session_b64) ((\<lambda>t. session_gz) ''SESSIONDATA''))"
    by (simp add: gifted_cfg_def)
  have 3: "base64_decode gifted_env ((\<lambda>b. session_b64) ((\<lambda>t. session_gz) ''SESSIONDATA''))
      = (\<lambda>t. session_gz) ''SESSIONDATA''"
    by (simp add: gifted_env_def sample_env_def)
  have 4: "take 2 ((\<lambda>t. session_gz) ''SESSIONDATA'') = [CHR 0x1F, CHR 0x8B]"
    by (simp add: session_gz_def)
  have 5: "map_option (utf8_toString gifted_env) (gunzip gifted_env ((\<lambda>t. session_gz) ''SESSIONDATA''))
      = Some ''SESSIONDATA''"
    by (simp add: gifted_env_def sample_env_def)
  have 6: "writeFile_ok gifted_env" by (simp add: gifted_env_def sample_env_def)
  from gifted_session_written [OF 1 2 3 4 5 6] 1 2 3 5 show ?thesis by simp
qed

section \<open>One more timer with every start\<close>

lemma handleAutoJoinGroups_console:
  "console (snd (handleAutoJoinGroups cfg env M w)) = console w @ [AutoJoinProcessing]"
  by (simp add: handleAutoJoinGroups_def Let_def walk_snd perform_def rethrow_def
      split: Outcome.splits Thrown.splits)

lemma timer_callback_console:
  "console (world (timer_callback cfg env M p)) = console (world p) @ [AutoJoinProcessing]"
  using handleAutoJoinGroups_console [of cfg env M "world p"]
  by (cases "handleAutoJoinGroups cfg env M (world p)")
    (simp add: timer_callback_def split: sum.splits)

lemma fold_timers_console:
  "console (world (fold (\<lambda>sock. timer_callback cfg env (engine sock)) ts p))
     = console (world p) @ replicate (length ts) AutoJoinProcessing"
  by (induction ts arbitrary: p)
    (simp_all add: timer_callback_console replicate_append_same)

lemma count_list_append: "count_list (xs @ ys) a = count_list xs a + count_list ys a"
  by (induction xs) simp_all

lemma count_list_replicate: "count_list (replicate n a) a = n"
  by (induction n) simp_all

lemma tick_runs:
  "count_list (console (world (tick cfg env engine p))) AutoJoinProcessing
     = count_list (console (world p)) AutoJoinProcessing + length (timers p)"
  by (simp add: tick_def fold_timers_console count_list_append count_list_replicate)

lemma start_wired:
  assumes "engine_ok env" and "wired p"
  shows "wired (start env p) \<and> length (sockets (start env p)) = Suc (length (sockets p))"
  using assms by (simp add: start_def wired_def)

lemma wired_lifecycle: "lifecycle p' = lifecycle p \<Longrightarrow> wired p' = wired p"
  by (simp add: lifecycle_def wired_def)

lemma wired_say [simp]: "wired (say l p) = wired p"
  by (simp add: wired_def)

lemma step_wired:
  assumes ok: "engine_ok (fst ev)" and w: "wired p"
  shows "wired (step cfg engine ev p) \<and>
         length (sockets (step cfg engine ev p))
           = length (sockets p) + (if recoverable_close (snd ev) then 1 else 0)"
proof (cases "recoverable_close (snd ev)")
  case False
  then have l: "lifecycle (step cfg engine ev p) = lifecycle p" by (rule step_quiet)
  then have "sockets (step cfg engine ev p) = sockets p" by (simp add: lifecycle_def)
  with False w wired_lifecycle [OF l] show ?thesis by simp
next
  case True
  then obtain sock update ld where ev: "snd ev = ConnectionUpdate sock update"
    and c: "connection update = Some ''close''" and l: "lastDisconnect update = Some ld"
    and r: "closeStatus ld \<noteq> Some loggedOut"
    by (auto simp: recoverable_close_def split: Event.splits option.splits)
  have "step cfg engine ev p = start (fst ev) (say Reconnecting p)"
    using w ev close_recoverable [OF c l r] by (simp add: step_def wired_def)
  with True start_wired [OF ok, of "say Reconnecting p"] w show ?thesis by simp
qed

lemma run_wired:
  assumes "list_all (\<lambda>ev. engine_ok (fst ev)) evs" and "wired p"
  shows "wired (run cfg engine evs p) \<and>
         length (sockets (run cfg engine evs p))
           = length (sockets p) + length (filter (\<lambda>ev. recoverable_close (snd ev)) evs)"
  using assms unfolding run_def
proof (induction evs arbitrary: p)
  case Nil
  then show ?case by simp
next
  case (Cons ev evs)
  from Cons.prems have ok: "engine_ok (fst ev)" and rest: "list_all (\<lambda>ev. engine_ok (fst ev)) evs"
    by simp_all
  note s = step_wired [OF ok Cons.prems(2), of cfg engine]
  from Cons.IH [OF rest s [THEN conjunct1]] s show ?case by simp
qed

lemma load_frame:
  "sockets (snd (loadGiftedSession cfg env p)) = sockets p \<and>
   timers (snd (loadGiftedSession cfg env p)) = timers p \<and>
   exited (snd (loadGiftedSession cfg env p)) = exited p"
  by (simp add: loadGiftedSession_def Let_def split: list.splits option.splits)

lemma download_frame:
  "sockets (snd (downloadLegacySession cfg env p)) = sockets p \<and>
   timers (snd (downloadLegacySession cfg env p)) = timers p \<and>
   exited (snd (downloadLegacySession cfg env p)) = exited p"
  by (simp add: downloadLegacySession_def Let_def split: option.splits)

lemma wired_frame:
  "sockets p' = sockets p \<Longrightarrow> timers p' = timers p \<Longrightarrow> exited p' = exited p \<Longrightarrow>
     wired (p'\<lparr>useQR := q\<rparr>) = wired p \<and> wired p' = wired p"
  by (simp add: wired_def)

lemma init_wired:
  assumes ok: "engine_ok env" and w: "wired p"
  shows "wired (init cfg env p) \<and> length (sockets (init cfg env p)) = Suc (length (sockets p))"
proof -
  have st: "wired (start env p') \<and> length (sockets (start env p')) = Suc (length (sockets p))"
    if "sockets p' = sockets p" "timers p' = timers p" "exited p' = exited p" for p'
    using start_wired [OF ok, of p'] that w by (simp add: wired_def)
  have 1: "wired (start env p) \<and> length (sockets (start env p)) = Suc (length (sockets p))"
    by (rule st) simp_all
  have 2: "wired (start env (p\<lparr>useQR := True\<rparr>)) \<and>
      length (sockets (start env (p\<lparr>useQR := True\<rparr>))) = Suc (length (sockets p))"
    by (rule st) simp_all
  have 3: "wired (start env (snd (loadGiftedSession cfg env p))) \<and>
      length (sockets (start env (snd (loadGiftedSession cfg env p)))) = Suc (length (sockets p))"
    by (rule st) (simp_all add: load_frame)
  have 4: "wired (start env ((snd (loadGiftedSession cfg env p))\<lparr>useQR := True\<rparr>)) \<and>
      length (sockets (start env ((snd (loadGiftedSession cfg env p))\<lparr>useQR := True\<rparr>)))
        = Suc (length (sockets p))"
    by (rule st) (simp_all add: load_frame)
  have 5: "wired (start env (snd (downloadLegacySession cfg env p))) \<and>
      length (sockets (start env (snd (downloadLegacySession cfg env p))))
        = Suc (length (sockets p))"
    by (rule st) (simp_all add: download_frame)
  have 6: "wired (start env ((snd (downloadLegacySession cfg env p))\<lparr>useQR := True\<rparr>)) \<and>
      length (sockets (start env ((snd (downloadLegacySession cfg env p))\<lparr>useQR := True\<rparr>)))
        = Suc (length (sockets p))"
    by (rule st) (simp_all add: download_frame)
  show ?thesis
    unfolding init_def using 1 2 3 4 5 6
    by (simp add: split_beta split: bool.splits)
qed

lemma wired_boot: "wired (boot f) \<and> sockets (boot f) = []"
  by (simp add: wired_def boot_def)

text \<open>
  C10. Let the engine's set-up succeed at every start. After \<open>init\<close> and any sequence of
  events of which \<open>n\<close> are closes with a recoverable cause, the process has \<open>n + 1\<close> sockets
  and \<open>n + 1\<close> timers, one bound to each socket and none removed, and one firing of the
  timers invokes the reconciler \<open>n + 1\<close> times.
\<close>

theorem every_start_adds_a_timer:
  assumes ok0: "engine_ok env0" and ok: "list_all (\<lambda>ev. engine_ok (fst ev)) evs"
  shows "(let p = run cfg engine evs (init cfg env0 (boot f));
              n = length (filter (\<lambda>ev. recoverable_close (snd ev)) evs)
          in \<not> exited p \<and> length (sockets p) = n + 1 \<and> timers p = [0..<n + 1] \<and>
             count_list (console (world (tick cfg env engine p))) AutoJoinProcessing
               = count_list (console (world p)) AutoJoinProcessing + (n + 1))"
proof -
  let ?p0 = "init cfg env0 (boot f)"
  have i: "wired ?p0" "length (sockets ?p0) = 1"
    using init_wired [OF ok0, of "boot f" cfg] wired_boot [of f] by simp_all
  from run_wired [OF ok i(1), of cfg engine] i(2)
  have r: "wired (run cfg engine evs ?p0)"
    "length (sockets (run cfg engine evs ?p0))
       = length (filter (\<lambda>ev. recoverable_close (snd ev)) evs) + 1"
    by simp_all
  show ?thesis
    unfolding Let_def tick_runs using r by (simp add: wired_def)
qed

theorem every_start_adds_a_timer_witness:
  "engine_ok sample_env \<and> list_all (\<lambda>ev. engine_ok (fst ev)) two_reconnects \<and>
   timers (run sample_cfg (\<lambda>sock. all_ok) two_reconnects (init sample_cfg sample_env (boot None)))
     = [0..<3] \<and>
   count_list (console (world (tick sample_cfg sample_env (\<lambda>sock. all_ok)
       (run sample_cfg (\<lambda>sock. all_ok) two_reconnects (init sample_cfg sample_env (boot None))))))
     AutoJoinProcessing
   = count_list (console (world
       (run sample_cfg (\<lambda>sock. all_ok) two_reconnects (init sample_cfg sample_env (boot None)))))
     AutoJoinProcessing + 3"
proof -
  have e: "engine_ok sample_env" by (simp add: sample_env_def)
  have a: "list_all (\<lambda>ev. engine_ok (fst ev)) two_reconnects"
    by (simp add: two_reconnects_def e)
  have n: "length (filter (\<lambda>ev. recoverable_close (snd ev)) two_reconnects) = 2"
    by (simp add: two_reconnects_def recoverable_close_def close_update_def closeStatus_def
        loggedOut_def)
  from every_start_adds_a_timer [OF e a, of sample_cfg "\<lambda>sock. all_ok" None sample_env] e a
  show ?thesis
    unfolding Let_def n by simp
qed

end
